theory Spec2Isabelle
  imports Complex_Main "HOL-Library.Word"
begin

unbundle bit_operations_syntax

section \<open>Data model\<close>

text \<open>
  A JavaScript string is a sequence of UTF-16 code units; \<open>charCodeAt\<close> reads one of
  them. The encoder only ever looks at code units, so a string is the list of its code
  units, and \<open>content.length\<close> is the length of the list.
\<close>

type_synonym jsstring = "nat list"

text \<open>A byte is an element of a \<open>Uint8Array\<close>.\<close>

type_synonym byte = "8 word"

text \<open>
  Every \<open>throw\<close> of the encoder raises a \<open>WriterException\<close>; the constructors below name
  the throw sites by their messages. \<open>IllegalArgument\<close> is the failure of the bit stream's
  append, \<open>RangeError\<close> the failure of allocating a typed array of negative length, and
  \<open>IllegalChar\<close> the string thrown by \<open>QRNumeric.charToNum\<close>.
\<close>

datatype WriterException =
    DataTooBig
  | DataTooBigForRequestedVersion
  | DataBitsCannotFit
  | BitsSizeNotCapacity
  | BlockIDTooLarge
  | ECBytesMismatch
  | RSBlocksMismatch
  | TotalBytesMismatch
  | BitsAndDataBytesMismatch
  | DataBytesOffsetMismatch
  | InterleavingError
  | LengthTooBig
  | InvalidAlphanumeric
  | EncodingFailed
  | InvalidByteSequence
  | ReedSolomonFailed
  | IllegalArgument
  | RangeError
  | IllegalChar

subsection \<open>BitArray\<close>

text \<open>
  Modelled from the spec: the class \<open>BitArray\<close> (and \<open>BitBuffer\<close> of the second
  encoder) is imported by the encoder and is not among the sources. The spec's BitStream
  is an append-only ordered sequence of bits, big-endian within each byte, with
  \<open>size\<close> in bits, \<open>size_in_bytes = (size + 7) / 8\<close>, append-bit, append-another-stream,
  \<open>append_bits(value, n)\<close>, which writes the low \<open>n\<close> bits of \<open>value\<close>, most significant
  bit first, and fails if \<open>n = 0\<close>, \<open>n > 32\<close> or \<open>value \<ge> 2 ^ n\<close>, and a readout of
  whole bytes. The value is a \<open>u32\<close> in the spec; the callers compute it as a JavaScript
  number, an \<open>int\<close> here, and a negative number is no \<open>u32\<close>: it is refused
  like every other value that does not fit.

  The encoder mutates a bit array in place and may throw after it has appended; an
  \<open>effect\<close> is either the bit array on return, or the exception together with the bit
  array as the throw leaves it.
\<close>

type_synonym BitArray = "bool list"

type_synonym effect = "(WriterException \<times> BitArray) + BitArray"

definition getSize :: "BitArray \<Rightarrow> nat" where
  "getSize bits = length bits"

definition getSizeInBytes :: "BitArray \<Rightarrow> nat" where
  "getSizeInBytes bits = (length bits + 7) div 8"

definition appendBit :: "bool \<Rightarrow> BitArray \<Rightarrow> BitArray" where
  "appendBit b bits = bits @ [b]"

definition appendBitArray :: "BitArray \<Rightarrow> BitArray \<Rightarrow> BitArray" where
  "appendBitArray other bits = bits @ other"

text \<open>The low \<open>n\<close> bits of \<open>v\<close>, most significant first.\<close>

definition toBits :: "nat \<Rightarrow> int \<Rightarrow> bool list" where
  "toBits n v = map (\<lambda>k. (v div 2 ^ (n - 1 - k)) mod 2 = 1) [0..<n]"

definition appendBits :: "int \<Rightarrow> nat \<Rightarrow> BitArray \<Rightarrow> effect" where
  "appendBits v n bits =
     (if n = 0 \<or> n > 32 \<or> v < 0 \<or> v \<ge> 2 ^ n then Inl (IllegalArgument, bits)
      else Inr (bits @ toBits n v))"

text \<open>Sequencing two effects on the same bit array: an exception ends the run.\<close>

definition andThen :: "effect \<Rightarrow> (BitArray \<Rightarrow> effect) \<Rightarrow> effect" where
  "andThen r f = (case r of Inl e \<Rightarrow> Inl e | Inr bits \<Rightarrow> f bits)"

definition thrown :: "effect \<Rightarrow> WriterException option" where
  "thrown r = (case r of Inl (e, _) \<Rightarrow> Some e | Inr _ \<Rightarrow> None)"

section \<open>Numeric segments\<close>

subsection \<open>Encoder.appendNumericBytes\<close>

definition getDigit :: "nat \<Rightarrow> int" where
  "getDigit c = int c - 48"

definition isDigit :: "nat \<Rightarrow> bool" where
  "isDigit c = (let cn = getDigit c in cn \<ge> 0 \<and> cn \<le> 9)"

text \<open>
  The loop \<open>while (i < length)\<close> reads the content from index \<open>i\<close> on and advances
  \<open>i\<close> by 3, 2 or 1; the argument here is the unread rest \<open>content[i..]\<close>. The test
  \<open>i + 2 < length\<close> holds when at least three characters are unread, \<open>i + 1 < length\<close>
  when at least two are.
\<close>

fun appendNumericBytes :: "jsstring \<Rightarrow> BitArray \<Rightarrow> effect" where
  "appendNumericBytes (c1 # c2 # c3 # rest) bits =
     andThen (appendBits (getDigit c1 * 100 + getDigit c2 * 10 + getDigit c3) 10 bits)
       (appendNumericBytes rest)"
| "appendNumericBytes [c1, c2] bits = appendBits (getDigit c1 * 10 + getDigit c2) 7 bits"
| "appendNumericBytes [c1] bits = appendBits (getDigit c1) 4 bits"
| "appendNumericBytes [] bits = Inr bits"

subsection \<open>QRNumeric.write\<close>

definition charToNum :: "nat \<Rightarrow> WriterException + int" where
  "charToNum ch = (if 48 \<le> ch \<and> ch \<le> 57 then Inr (int ch - 48) else Inl IllegalChar)"

text \<open>\<open>strToNum\<close>: the loop \<open>num = num * 10 + charToNum(str.charAt(i))\<close>, from \<open>num\<close>.\<close>

fun strToNumFrom :: "int \<Rightarrow> jsstring \<Rightarrow> WriterException + int" where
  "strToNumFrom num [] = Inr num"
| "strToNumFrom num (ch # str) =
     (case charToNum ch of
        Inl e \<Rightarrow> Inl e
      | Inr d \<Rightarrow> strToNumFrom (num * 10 + d) str)"

definition strToNum :: "jsstring \<Rightarrow> WriterException + int" where
  "strToNum str = strToNumFrom 0 str"

text \<open>\<open>buffer.put(strToNum(s), length)\<close>: the number is computed first, then written.\<close>

definition putStr :: "jsstring \<Rightarrow> nat \<Rightarrow> BitArray \<Rightarrow> effect" where
  "putStr s n buffer =
     (case strToNum s of
        Inl e \<Rightarrow> Inl (e, buffer)
      | Inr num \<Rightarrow> appendBits num n buffer)"

text \<open>
  The first loop of \<open>write\<close>, \<open>while (i + 2 < length)\<close>, on the unread rest of the data:
  it returns the rest it leaves unread together with the buffer.
\<close>

fun writeTriples :: "jsstring \<Rightarrow> BitArray \<Rightarrow> (WriterException \<times> BitArray) + (jsstring \<times> BitArray)" where
  "writeTriples (c1 # c2 # c3 # rest) buffer =
     (case putStr [c1, c2, c3] 10 buffer of
        Inl e \<Rightarrow> Inl e
      | Inr buffer' \<Rightarrow> writeTriples rest buffer')"
| "writeTriples rest buffer = Inr (rest, buffer)"

definition QRNumeric_write :: "jsstring \<Rightarrow> BitArray \<Rightarrow> effect" where
  "QRNumeric_write data buffer =
     (case writeTriples data buffer of
        Inl e \<Rightarrow> Inl e
      | Inr (rest, buffer') \<Rightarrow>
          if 0 < length rest then
            if length rest = 1 then putStr (take 1 rest) 4 buffer'
            else if length rest = 2 then putStr (take 2 rest) 7 buffer'
            else Inr buffer'
          else Inr buffer')"

subsection \<open>What the numeric segment is\<close>

text \<open>
  The reading of the numeric packing rule that the two encoders are compared with: the
  digits are cut into groups of three from the left, the last group keeping the one or
  two digits left over; a group stands for its decimal value, written in 10, 7 or 4 bits
  for three, two or one digits.
\<close>

definition allDigits :: "jsstring \<Rightarrow> bool" where
  "allDigits s = (\<forall>c \<in> set s. 48 \<le> c \<and> c \<le> 57)"

definition decimalValue :: "jsstring \<Rightarrow> int" where
  "decimalValue s = foldl (\<lambda>n c. n * 10 + (int c - 48)) 0 s"

fun groupsOfThree :: "'a list \<Rightarrow> 'a list list" where
  "groupsOfThree (a # b # c # rest) = [a, b, c] # groupsOfThree rest"
| "groupsOfThree [] = []"
| "groupsOfThree xs = [xs]"

definition groupWidth :: "jsstring \<Rightarrow> nat" where
  "groupWidth g = (if length g = 3 then 10 else if length g = 2 then 7 else 4)"

definition numericBits :: "jsstring \<Rightarrow> bool list" where
  "numericBits s = concat (map (\<lambda>g. toBits (groupWidth g) (decimalValue g)) (groupsOfThree s))"

section \<open>Modes, versions and error correction levels\<close>

text \<open>
  Modelled from the spec: the classes \<open>Mode\<close>, \<open>Version\<close>, \<open>ECBlocks\<close> and
  \<open>ErrorCorrectionLevel\<close> are imported by the encoder and are not among the sources.
  The spec's Mode is a tagged variant with four values, each with a 4-bit indicator
  (0001, 0010, 0100, 1000) and three character-count widths for the version ranges 1 to 9,
  10 to 26 and 27 to 40, plus an ECI marker used only as a header prefix, with the
  indicator 0111 and no widths. A Version is a number from 1 to 40 with its total count of
  codewords and, for each error correction level, its ECBlocks: the error correction
  codewords per block and one or two groups of blocks, each a count of blocks and the
  data codewords of each of them. The tables of the standard are not in the spec; a
  version is a record of what the encoder reads from it.
\<close>

datatype Mode = NUMERIC | ALPHANUMERIC | BYTE | KANJI

fun getBits :: "Mode \<Rightarrow> int" where
  "getBits NUMERIC = 1"
| "getBits ALPHANUMERIC = 2"
| "getBits BYTE = 4"
| "getBits KANJI = 8"

definition ECI_getBits :: int where
  "ECI_getBits = 7"

datatype ErrorCorrectionLevel = L | M | Q | H

record ECBlocks =
  ecCodewordsPerBlock :: nat
  ecBlocks :: "(nat \<times> nat) list"

definition getNumBlocks :: "ECBlocks \<Rightarrow> nat" where
  "getNumBlocks b = sum_list (map fst (ecBlocks b))"

definition getTotalECCodewords :: "ECBlocks \<Rightarrow> nat" where
  "getTotalECCodewords b = ecCodewordsPerBlock b * getNumBlocks b"

record Version =
  versionNumber :: nat
  totalCodewords :: nat
  ecBlocksForLevel :: "ErrorCorrectionLevel \<Rightarrow> ECBlocks"

definition getTotalCodewords :: "Version \<Rightarrow> nat" where
  "getTotalCodewords v = totalCodewords v"

definition getECBlocksForLevel :: "Version \<Rightarrow> ErrorCorrectionLevel \<Rightarrow> ECBlocks" where
  "getECBlocksForLevel v ecLevel = ecBlocksForLevel v ecLevel"

fun characterCountBitsForVersions :: "Mode \<Rightarrow> nat list" where
  "characterCountBitsForVersions NUMERIC = [10, 12, 14]"
| "characterCountBitsForVersions ALPHANUMERIC = [9, 11, 13]"
| "characterCountBitsForVersions BYTE = [8, 16, 16]"
| "characterCountBitsForVersions KANJI = [8, 10, 12]"

definition getCharacterCountBits :: "Mode \<Rightarrow> Version \<Rightarrow> nat" where
  "getCharacterCountBits mode version =
     (let number = versionNumber version;
          offset = (if number \<le> 9 then 0 else if number \<le> 26 then 1 else 2)
      in characterCountBitsForVersions mode ! offset)"

section \<open>Payload assembly\<close>

subsection \<open>Encoder.appendLengthInfo\<close>

text \<open>
  JavaScript's \<open>1 << numBits\<close>: the shift is on 32-bit integers, its count is taken
  modulo 32 and its result is read as a signed 32-bit integer.
\<close>

definition shiftLeftOne :: "nat \<Rightarrow> int" where
  "shiftLeftOne numBits = sint (push_bit (numBits mod 32) (1 :: 32 word))"

text \<open>\<open>numLetters\<close> is a count of characters or bytes, a natural number.\<close>

definition appendLengthInfo :: "nat \<Rightarrow> Version \<Rightarrow> Mode \<Rightarrow> BitArray \<Rightarrow> effect" where
  "appendLengthInfo numLetters version mode bits =
     (let numBits = getCharacterCountBits mode version
      in if int numLetters \<ge> shiftLeftOne numBits then Inl (LengthTooBig, bits)
         else appendBits (int numLetters) numBits bits)"

subsection \<open>Encoder.getNumDataBytesAndNumECBytesForBlockID\<close>

text \<open>
  The counts of bytes and blocks and the index of a block are natural numbers. The source
  computes on JavaScript numbers, which are doubles: on integers below \<open>2 ^ 53\<close> their
  sums, differences, products, \<open>Math.floor(a / b)\<close> and \<open>a % b\<close> are exact, and the
  model is this exact arithmetic, \<open>div\<close> and \<open>mod\<close> for the last two; beyond
  \<open>2 ^ 53\<close> the source rounds and the model does not follow it. The function throws for
  every \<open>blockID\<close> when \<open>numRSBlocks\<close> is 0, before it divides.

  The two results are stored into the \<open>Int32Array\<close> cells \<open>numDataBytesInBlock[0]\<close>
  and \<open>numECBytesInBlock[0]\<close>, where the caller reads them: a store converts the number
  to a signed 32-bit integer, wrapping at \<open>2 ^ 31\<close>. The pair returned is the two cells.
\<close>

definition toInt32 :: "int \<Rightarrow> int" where
  "toInt32 x = sint (word_of_int x :: 32 word)"

definition getNumDataBytesAndNumECBytesForBlockID ::
  "nat \<Rightarrow> nat \<Rightarrow> nat \<Rightarrow> nat \<Rightarrow> WriterException + (int \<times> int)" where
  "getNumDataBytesAndNumECBytesForBlockID numTotalBytes numDataBytes numRSBlocks blockID =
     (if blockID \<ge> numRSBlocks then Inl BlockIDTooLarge
      else
        let numRsBlocksInGroup2 = int (numTotalBytes mod numRSBlocks);
            numRsBlocksInGroup1 = int numRSBlocks - numRsBlocksInGroup2;
            numTotalBytesInGroup1 = int (numTotalBytes div numRSBlocks);
            numTotalBytesInGroup2 = numTotalBytesInGroup1 + 1;
            numDataBytesInGroup1 = int (numDataBytes div numRSBlocks);
            numDataBytesInGroup2 = numDataBytesInGroup1 + 1;
            numEcBytesInGroup1 = numTotalBytesInGroup1 - numDataBytesInGroup1;
            numEcBytesInGroup2 = numTotalBytesInGroup2 - numDataBytesInGroup2
        in if numEcBytesInGroup1 \<noteq> numEcBytesInGroup2 then Inl ECBytesMismatch
           else if int numRSBlocks \<noteq> numRsBlocksInGroup1 + numRsBlocksInGroup2
             then Inl RSBlocksMismatch
           else if int numTotalBytes \<noteq>
               (numDataBytesInGroup1 + numEcBytesInGroup1) * numRsBlocksInGroup1 +
               (numDataBytesInGroup2 + numEcBytesInGroup2) * numRsBlocksInGroup2
             then Inl TotalBytesMismatch
           else if int blockID < numRsBlocksInGroup1
             then Inr (toInt32 numDataBytesInGroup1, toInt32 numEcBytesInGroup1)
           else Inr (toInt32 numDataBytesInGroup2, toInt32 numEcBytesInGroup2))"

subsection \<open>Encoder.terminateBits\<close>

text \<open>The loop \<open>for (i = 0; i < 4 && bits.getSize() < capacity; ++i)\<close>, from \<open>i\<close>.\<close>

function terminatorLoop :: "nat \<Rightarrow> int \<Rightarrow> BitArray \<Rightarrow> BitArray" where
  "terminatorLoop i capacity bits =
     (if i < 4 \<and> int (getSize bits) < capacity
      then terminatorLoop (i + 1) capacity (appendBit False bits)
      else bits)"
  by pat_completeness auto
termination
  by (relation "measure (\<lambda>(i, capacity, bits). 4 - i)") auto

declare terminatorLoop.simps [simp del]

text \<open>
  The loop \<open>for (i = 0; i < numPaddingBytes; ++i)\<close> over the values of \<open>i\<close>;
  \<open>(i & 0x01) === 0\<close> is parity.
\<close>

fun paddingLoop :: "nat list \<Rightarrow> BitArray \<Rightarrow> effect" where
  "paddingLoop [] bits = Inr bits"
| "paddingLoop (i # rest) bits =
     andThen (appendBits (if i mod 2 = 0 then 0xec else 0x11) 8 bits) (paddingLoop rest)"

text \<open>
  \<open>numDataBytes\<close> is the difference of two table entries in \<open>encode\<close>, an integer.
  \<open>bits.getSize() & 0x07\<close> is the size modulo 8; the loop from \<open>numBitsInLastByte\<close>
  to 7 appends one bit for each value of its counter.
\<close>

definition terminateBits :: "int \<Rightarrow> BitArray \<Rightarrow> effect" where
  "terminateBits numDataBytes bits =
     (let capacity = numDataBytes * 8
      in if int (getSize bits) > capacity then Inl (DataBitsCannotFit, bits)
         else
           let bits1 = terminatorLoop 0 capacity bits;
               numBitsInLastByte = getSize bits1 mod 8;
               bits2 = (if numBitsInLastByte > 0
                        then fold (\<lambda>i. appendBit False) [numBitsInLastByte..<8] bits1
                        else bits1);
               numPaddingBytes = numDataBytes - int (getSizeInBytes bits2)
           in andThen (paddingLoop [0..<nat numPaddingBytes] bits2)
                (\<lambda>bits3. if int (getSize bits3) \<noteq> capacity
                          then Inl (BitsSizeNotCapacity, bits3)
                          else Inr bits3))"

text \<open>The padding bytes of 8.4.9: 0xEC and 0x11 in turn, 0xEC first.\<close>

definition paddingBytes :: "nat \<Rightarrow> bool list" where
  "paddingBytes k = concat (map (\<lambda>i. toBits 8 (if even i then 0xEC else 0x11)) [0..<k])"

text \<open>The data bytes of block \<open>blockID\<close> as the spec states them.\<close>

definition dataBytesInBlock :: "nat \<Rightarrow> nat \<Rightarrow> nat \<Rightarrow> nat \<Rightarrow> int" where
  "dataBytesInBlock numTotalBytes numDataBytes numRSBlocks blockID =
     (if blockID < numRSBlocks - numTotalBytes mod numRSBlocks
      then int (numDataBytes div numRSBlocks)
      else int (numDataBytes div numRSBlocks) + 1)"

definition ecBytesInBlock :: "nat \<Rightarrow> nat \<Rightarrow> nat \<Rightarrow> int" where
  "ecBytesInBlock numTotalBytes numDataBytes numRSBlocks =
     int (numTotalBytes div numRSBlocks) - int (numDataBytes div numRSBlocks)"

text \<open>
  What termination appends, as the spec states it: up to four 0 bits, as many as the
  capacity leaves room for, then 0 bits up to the next byte boundary.
\<close>

definition terminatorBits :: "int \<Rightarrow> BitArray \<Rightarrow> nat" where
  "terminatorBits numDataBytes bits = min 4 (nat (numDataBytes * 8 - int (length bits)))"

definition alignmentBits :: "nat \<Rightarrow> nat" where
  "alignmentBits n = (8 - n mod 8) mod 8"

subsection \<open>An example version\<close>

text \<open>
  Version 7 of the standard's table. The comments of \<open>willFit\<close> and of
  \<open>getNumDataBytesAndNumECBytesForBlockID\<close> quote its level H: 196 codewords, 130 of
  them for error correction, in 5 blocks of 26 error correction codewords each, four
  blocks with 13 data codewords and one with 14.
\<close>

definition version7 :: Version where
  "version7 = \<lparr> versionNumber = 7, totalCodewords = 196,
      ecBlocksForLevel = (\<lambda>ecLevel. case ecLevel of
          L \<Rightarrow> \<lparr> ecCodewordsPerBlock = 20, ecBlocks = [(2, 78)] \<rparr>
        | M \<Rightarrow> \<lparr> ecCodewordsPerBlock = 18, ecBlocks = [(4, 31)] \<rparr>
        | Q \<Rightarrow> \<lparr> ecCodewordsPerBlock = 18, ecBlocks = [(2, 14), (4, 15)] \<rparr>
        | H \<Rightarrow> \<lparr> ecCodewordsPerBlock = 26, ecBlocks = [(4, 13), (1, 14)] \<rparr>) \<rparr>"

subsection \<open>Encoder.interleaveWithECBytes\<close>

text \<open>
  Modelled from the spec: \<open>BitArray.toBytes\<close> reads whole bytes from a bit offset, most
  significant bit first. The spec does not say what a read beyond the size gives; the
  bits beyond the size read as 0 here.
\<close>

definition getBit :: "BitArray \<Rightarrow> nat \<Rightarrow> bool" where
  "getBit bits k = (k < length bits \<and> bits ! k)"

definition byteOfBits :: "bool list \<Rightarrow> byte" where
  "byteOfBits bs = foldl (\<lambda>acc b. 2 * acc + (if b then 1 else 0)) 0 bs"

definition toBytes :: "BitArray \<Rightarrow> nat \<Rightarrow> nat \<Rightarrow> byte list" where
  "toBytes bits bitOffset numBytes =
     map (\<lambda>i. byteOfBits (map (getBit bits) [bitOffset + 8 * i..<bitOffset + 8 * i + 8]))
       [0..<numBytes]"

text \<open>
  \<open>ReedSolomonEncoder.encode\<close> is not among the sources; it is a parameter: it takes
  the array \<open>toEncode\<close> and the number of error correction bytes, and either throws or
  leaves the array with its last entries filled in.
\<close>

type_synonym rsEncoder = "int list \<Rightarrow> int \<Rightarrow> WriterException + int list"

text \<open>
  \<open>generateECBytes\<close>: a typed array of negative length cannot be allocated; an array
  shorter than the data keeps the data that fit; a read beyond an array gives
  \<open>undefined\<close>, stored in a \<open>Uint8Array\<close> as 0, and any other number is stored modulo
  256.
\<close>

definition generateECBytes :: "rsEncoder \<Rightarrow> byte list \<Rightarrow> int \<Rightarrow> WriterException + byte list" where
  "generateECBytes rs dataBytes numEcBytesInBlock =
     (let numDataBytes = length dataBytes
      in if int numDataBytes + numEcBytesInBlock < 0 then Inl RangeError
         else
           let toEncode = take (nat (int numDataBytes + numEcBytesInBlock))
                            (map uint dataBytes @ replicate (nat numEcBytesInBlock) 0)
           in case rs toEncode numEcBytesInBlock of
                Inl e \<Rightarrow> Inl e
              | Inr encoded \<Rightarrow>
                  if numEcBytesInBlock < 0 then Inl RangeError
                  else Inr (map (\<lambda>i. if numDataBytes + i < length encoded
                                       then of_int (encoded ! (numDataBytes + i)) else 0)
                              [0..<nat numEcBytesInBlock]))"

text \<open>
  Modelled from the spec: the class \<open>BlockPair\<close> is not among the sources; the spec's
  BlockPair is the pair of the data bytes and the error correction bytes of one block.
\<close>

record BlockPair =
  getDataBytes :: "byte list"
  getErrorCorrectionBytes :: "byte list"

text \<open>
  Step 1, the loop \<open>for (i = 0; i < numRSBlocks; ++i)\<close> over the values of \<open>i\<close> still to
  come, on the data bytes offset, the two maxima and the blocks collected so far.
\<close>

fun divideBlocks ::
  "rsEncoder \<Rightarrow> BitArray \<Rightarrow> nat \<Rightarrow> nat \<Rightarrow> nat \<Rightarrow> nat list
     \<Rightarrow> int \<times> nat \<times> nat \<times> BlockPair list
     \<Rightarrow> WriterException + (int \<times> nat \<times> nat \<times> BlockPair list)" where
  "divideBlocks rs bits numTotalBytes numDataBytes numRSBlocks [] state = Inr state"
| "divideBlocks rs bits numTotalBytes numDataBytes numRSBlocks (i # rest)
     (dataBytesOffset, maxNumDataBytes, maxNumEcBytes, blocks) =
     (case getNumDataBytesAndNumECBytesForBlockID numTotalBytes numDataBytes numRSBlocks i of
        Inl e \<Rightarrow> Inl e
      | Inr (numDataBytesInBlock, numEcBytesInBlock) \<Rightarrow>
          if numDataBytesInBlock < 0 then Inl RangeError
          else
            let size = nat numDataBytesInBlock;
                dataBytes = toBytes bits (8 * nat dataBytesOffset) size
            in case generateECBytes rs dataBytes numEcBytesInBlock of
                 Inl e \<Rightarrow> Inl e
               | Inr ecBytes \<Rightarrow>
                   divideBlocks rs bits numTotalBytes numDataBytes numRSBlocks rest
                     (dataBytesOffset + numDataBytesInBlock,
                      max maxNumDataBytes size,
                      max maxNumEcBytes (length ecBytes),
                      blocks @ [\<lparr> getDataBytes = dataBytes,
                                  getErrorCorrectionBytes = ecBytes \<rparr>]))"

text \<open>
  The inner loop \<open>for (const block of blocks)\<close> at index \<open>i\<close>, over the byte arrays of
  the blocks still to come, and the outer loop over the values of \<open>i\<close>.
\<close>

fun placeBytesAt :: "nat \<Rightarrow> byte list list \<Rightarrow> BitArray \<Rightarrow> effect" where
  "placeBytesAt i [] result = Inr result"
| "placeBytesAt i (bytes # rest) result =
     (if i < length bytes
      then andThen (appendBits (uint (bytes ! i)) 8 result) (placeBytesAt i rest)
      else placeBytesAt i rest result)"

fun placeBlocks :: "nat list \<Rightarrow> byte list list \<Rightarrow> BitArray \<Rightarrow> effect" where
  "placeBlocks [] blocks result = Inr result"
| "placeBlocks (i # rest) blocks result =
     andThen (placeBytesAt i blocks result) (placeBlocks rest blocks)"

text \<open>
  The result is a new bit array, so an exception leaves nothing behind. The counts of
  bytes and of blocks are natural numbers.
\<close>

definition interleaveWithECBytes ::
  "rsEncoder \<Rightarrow> BitArray \<Rightarrow> nat \<Rightarrow> nat \<Rightarrow> nat \<Rightarrow> WriterException + BitArray" where
  "interleaveWithECBytes rs bits numTotalBytes numDataBytes numRSBlocks =
     (if getSizeInBytes bits \<noteq> numDataBytes then Inl BitsAndDataBytesMismatch
      else
        case divideBlocks rs bits numTotalBytes numDataBytes numRSBlocks [0..<numRSBlocks]
               (0, 0, 0, []) of
          Inl e \<Rightarrow> Inl e
        | Inr (dataBytesOffset, maxNumDataBytes, maxNumEcBytes, blocks) \<Rightarrow>
            if int numDataBytes \<noteq> dataBytesOffset then Inl DataBytesOffsetMismatch
            else
              case andThen (placeBlocks [0..<maxNumDataBytes] (map getDataBytes blocks) [])
                     (placeBlocks [0..<maxNumEcBytes] (map getErrorCorrectionBytes blocks)) of
                Inl (e, _) \<Rightarrow> Inl e
              | Inr result \<Rightarrow>
                  if numTotalBytes \<noteq> getSizeInBytes result then Inl InterleavingError
                  else Inr result)"

text \<open>
  The blocks as the spec states them: the data bytes cut into consecutive blocks of the
  sizes of the blocks in order, the error correction bytes of each block in the same
  order (the first failure of the Reed-Solomon encoder is the failure of the whole), and
  the bits of a sequence of bytes, 8 for each.
\<close>

definition blockSizes :: "nat \<Rightarrow> nat \<Rightarrow> nat \<Rightarrow> nat list" where
  "blockSizes numTotalBytes numDataBytes numRSBlocks =
     map (\<lambda>i. nat (dataBytesInBlock numTotalBytes numDataBytes numRSBlocks i)) [0..<numRSBlocks]"

fun slicesFrom :: "BitArray \<Rightarrow> nat \<Rightarrow> nat list \<Rightarrow> byte list list" where
  "slicesFrom bits offset [] = []"
| "slicesFrom bits offset (n # sizes) =
     toBytes bits (8 * offset) n # slicesFrom bits (offset + n) sizes"

definition dataBlocks :: "BitArray \<Rightarrow> nat \<Rightarrow> nat \<Rightarrow> nat \<Rightarrow> byte list list" where
  "dataBlocks bits numTotalBytes numDataBytes numRSBlocks =
     slicesFrom bits 0 (blockSizes numTotalBytes numDataBytes numRSBlocks)"

fun collectECBytes :: "rsEncoder \<Rightarrow> int \<Rightarrow> byte list list \<Rightarrow> WriterException + byte list list" where
  "collectECBytes rs numEc [] = Inr []"
| "collectECBytes rs numEc (dataBytes # rest) =
     (case generateECBytes rs dataBytes numEc of
        Inl e \<Rightarrow> Inl e
      | Inr ecBytes \<Rightarrow>
          (case collectECBytes rs numEc rest of
             Inl e \<Rightarrow> Inl e
           | Inr others \<Rightarrow> Inr (ecBytes # others)))"

definition bytesToBits :: "byte list \<Rightarrow> bool list" where
  "bytesToBits bytes = concat (map (\<lambda>b. toBits 8 (uint b)) bytes)"

text \<open>
  Byte \<open>i\<close> of every block that has one, in the order of the blocks, and the sizes
  of the blocks of a list of block indices.
\<close>

definition bytesAt :: "nat \<Rightarrow> byte list list \<Rightarrow> byte list" where
  "bytesAt i blocks = map (\<lambda>xs. xs ! i) (filter (\<lambda>ys. i < length ys) blocks)"

definition sizesOf :: "nat \<Rightarrow> nat \<Rightarrow> nat \<Rightarrow> nat list \<Rightarrow> nat list" where
  "sizesOf t d n is = map (\<lambda>i. nat (dataBytesInBlock t d n i)) is"

text \<open>
  A stand-in for the Reed-Solomon encoder in examples: it refuses an empty block and a
  block without error correction bytes, as the spec says the encoder does, and fills the
  slots with the sum of the data plus the index of the slot.
\<close>

definition exampleRS :: rsEncoder where
  "exampleRS toEncode numEc =
     (if numEc \<le> 0 \<or> int (length toEncode) \<le> numEc then Inl ReedSolomonFailed
      else
        let numData = length toEncode - nat numEc
        in Inr (take numData toEncode
                @ map (\<lambda>i. sum_list (take numData toEncode) + int i) [0..<nat numEc]))"

section \<open>The platform\<close>

text \<open>
  Modelled from the spec: \<open>CharacterSetECI\<close> and \<open>StringEncoding\<close> are imported by the
  encoder and are not among the sources. A character set has a name and an ECI designator
  value; the encoder reads the two sets \<open>SJIS\<close> and \<open>UTF8\<close>, looks a set up by the name
  of the charset hint (\<open>null\<close> when there is none of that name), and encodes a string to
  bytes in a named charset through the platform's text-encoding facility, which throws
  when it cannot. These are parameters of the model.
\<close>

record CharacterSetECI =
  getName :: string
  getValue :: nat

record Platform =
  SJIS :: CharacterSetECI
  UTF8 :: CharacterSetECI
  getCharacterSetECIByName :: "string \<Rightarrow> CharacterSetECI option"
  StringEncoding_encode :: "jsstring \<Rightarrow> string \<Rightarrow> byte list option"

definition DEFAULT_BYTE_MODE_ENCODING :: "Platform \<Rightarrow> string" where
  "DEFAULT_BYTE_MODE_ENCODING p = getName (UTF8 p)"

section \<open>Mode selection\<close>

definition ALPHANUMERIC_TABLE :: "int list" where
  "ALPHANUMERIC_TABLE =
    [-1, -1, -1, -1, -1, -1, -1, -1, -1, -1, -1, -1, -1, -1, -1, -1,
     -1, -1, -1, -1, -1, -1, -1, -1, -1, -1, -1, -1, -1, -1, -1, -1,
     36, -1, -1, -1, 37, 38, -1, -1, -1, -1, 39, 40, -1, 41, 42, 43,
     0, 1, 2, 3, 4, 5, 6, 7, 8, 9, 44, -1, -1, -1, -1, -1,
     -1, 10, 11, 12, 13, 14, 15, 16, 17, 18, 19, 20, 21, 22, 23, 24,
     25, 26, 27, 28, 29, 30, 31, 32, 33, 34, 35, -1, -1, -1, -1, -1]"

definition getAlphanumericCode :: "nat \<Rightarrow> int" where
  "getAlphanumericCode code =
     (if code < length ALPHANUMERIC_TABLE then ALPHANUMERIC_TABLE ! code else -1)"

text \<open>
  \<open>isOnlyDoubleByteKanji\<close>: the loop \<open>for (i = 0; i < length; i += 2)\<close> over the bytes
  from index \<open>i\<close> on; it reads \<open>bytes[i]\<close> only.
\<close>

fun firstBytesAreKanji :: "byte list \<Rightarrow> bool" where
  "firstBytesAreKanji [] = True"
| "firstBytesAreKanji (b # rest) =
     (let byte1 = unat b
      in if (byte1 < 0x81 \<or> byte1 > 0x9f) \<and> (byte1 < 0xe0 \<or> byte1 > 0xeb) then False
         else firstBytesAreKanji (drop 1 rest))"

definition isOnlyDoubleByteKanji :: "Platform \<Rightarrow> jsstring \<Rightarrow> bool" where
  "isOnlyDoubleByteKanji p content =
     (case StringEncoding_encode p content (getName (SJIS p)) of
        None \<Rightarrow> False
      | Some bytes \<Rightarrow>
          if length bytes mod 2 \<noteq> 0 then False else firstBytesAreKanji bytes)"

text \<open>The scan of \<open>chooseMode\<close> over the characters not yet read, with its two flags.\<close>

fun chooseModeScan :: "jsstring \<Rightarrow> bool \<Rightarrow> bool \<Rightarrow> Mode" where
  "chooseModeScan [] hasNumeric hasAlphanumeric =
     (if hasAlphanumeric then ALPHANUMERIC else if hasNumeric then NUMERIC else BYTE)"
| "chooseModeScan (c # rest) hasNumeric hasAlphanumeric =
     (if isDigit c then chooseModeScan rest True hasAlphanumeric
      else if getAlphanumericCode c \<noteq> -1 then chooseModeScan rest hasNumeric True
      else BYTE)"

text \<open>The encoding is a string or \<open>null\<close>.\<close>

definition chooseMode :: "Platform \<Rightarrow> jsstring \<Rightarrow> string option \<Rightarrow> Mode" where
  "chooseMode p content encoding =
     (if Some (getName (SJIS p)) = encoding \<and> isOnlyDoubleByteKanji p content then KANJI
      else chooseModeScan content False False)"

section \<open>Kanji segments\<close>

text \<open>
  One round of the loop of \<open>appendKanjiBytes\<close>, on the two numbers read. The bit
  operations are those of JavaScript on numbers that fit 32 bits with room to spare.
\<close>

definition appendKanjiPair :: "int \<Rightarrow> int \<Rightarrow> BitArray \<Rightarrow> effect" where
  "appendKanjiPair byte1 byte2 bits =
     (let code = (push_bit 8 byte1 AND 0xffffffff) OR byte2;
          subtracted =
            (if code \<ge> 0x8140 \<and> code \<le> 0x9ffc then code - 0x8140
             else if code \<ge> 0xe040 \<and> code \<le> 0xebbf then code - 0xc140
             else -1)
      in if subtracted = -1 then Inl (InvalidByteSequence, bits)
         else appendBits (drop_bit 8 subtracted * 0xc0 + (subtracted AND 0xff)) 13 bits)"

text \<open>
  The loop \<open>for (i = 0; i < length; i += 2)\<close> over the bytes from index \<open>i\<close> on. With one
  byte left, \<open>bytes[i + 1]\<close> is beyond the array: it reads \<open>undefined\<close>, and
  \<open>undefined & 0xff\<close> is 0.
\<close>

fun appendKanjiLoop :: "byte list \<Rightarrow> BitArray \<Rightarrow> effect" where
  "appendKanjiLoop [] bits = Inr bits"
| "appendKanjiLoop [b1] bits = appendKanjiPair (uint b1) 0 bits"
| "appendKanjiLoop (b1 # b2 # rest) bits =
     andThen (appendKanjiPair (uint b1) (uint b2) bits) (appendKanjiLoop rest)"

definition appendKanjiBytes :: "Platform \<Rightarrow> jsstring \<Rightarrow> BitArray \<Rightarrow> effect" where
  "appendKanjiBytes p content bits =
     (case StringEncoding_encode p content (getName (SJIS p)) of
        None \<Rightarrow> Inl (EncodingFailed, bits)
      | Some bytes \<Rightarrow> appendKanjiLoop bytes bits)"

section \<open>Version selection\<close>

text \<open>
  \<open>willFit\<close>: the division \<open>(numInputBits + 7) / 8\<close> is a division of JavaScript numbers
  and is not rounded; a division of an integer by 8 is exact in binary floating point, so
  the quotient is the rational number. \<open>numInputBits\<close> is a count of bits.
\<close>

definition willFit :: "nat \<Rightarrow> Version \<Rightarrow> ErrorCorrectionLevel \<Rightarrow> bool" where
  "willFit numInputBits version ecLevel =
     (let numBytes = int (getTotalCodewords version);
          ecBlocks = getECBlocksForLevel version ecLevel;
          numEcBytes = int (getTotalECCodewords ecBlocks);
          numDataBytes = numBytes - numEcBytes;
          totalInputBytes = (of_nat numInputBits + 7) / (8 :: rat)
      in of_int numDataBytes \<ge> totalInputBytes)"

text \<open>
  \<open>chooseVersion\<close>: the loop over the version numbers 1 to 40 returns at the first
  version that fits. \<open>Version.getVersionForNumber\<close> is the standard's table, a parameter.
\<close>

definition chooseVersion ::
  "(nat \<Rightarrow> Version) \<Rightarrow> nat \<Rightarrow> ErrorCorrectionLevel \<Rightarrow> WriterException + Version" where
  "chooseVersion getVersionForNumber numInputBits ecLevel =
     (case find (\<lambda>versionNum. willFit numInputBits (getVersionForNumber versionNum) ecLevel)
             [1..<41] of
        Some versionNum \<Rightarrow> Inr (getVersionForNumber versionNum)
      | None \<Rightarrow> Inl DataTooBig)"

text \<open>The capacity test of the standard, on whole bytes: \<open>numInputBits\<close> rounded up.\<close>

definition numDataCodewords :: "Version \<Rightarrow> ErrorCorrectionLevel \<Rightarrow> int" where
  "numDataCodewords version ecLevel =
     int (getTotalCodewords version)
       - int (getTotalECCodewords (getECBlocksForLevel version ecLevel))"

definition fitsByCeiling :: "nat \<Rightarrow> Version \<Rightarrow> ErrorCorrectionLevel \<Rightarrow> bool" where
  "fitsByCeiling numInputBits version ecLevel =
     (numDataCodewords version ecLevel \<ge> int ((numInputBits + 7) div 8))"

section \<open>The header of a symbol\<close>

definition appendECI :: "CharacterSetECI \<Rightarrow> BitArray \<Rightarrow> effect" where
  "appendECI eci bits =
     andThen (appendBits ECI_getBits 4 bits) (appendBits (int (getValue eci)) 8)"

definition appendModeInfo :: "Mode \<Rightarrow> BitArray \<Rightarrow> effect" where
  "appendModeInfo mode bits = appendBits (getBits mode) 4 bits"

text \<open>
  The hints of \<open>encode\<close> are a map or \<open>null\<close>; the encoder reads the character set from
  it, and the version.
\<close>

record Hints =
  CHARACTER_SET :: "string option"
  QR_VERSION :: "nat option"

definition hasEncodingHint :: "Hints option \<Rightarrow> bool" where
  "hasEncodingHint hints =
     (case hints of None \<Rightarrow> False | Some h \<Rightarrow> CHARACTER_SET h \<noteq> None)"

definition encoding_of :: "Platform \<Rightarrow> Hints option \<Rightarrow> string" where
  "encoding_of p hints =
     (case hints of
        None \<Rightarrow> DEFAULT_BYTE_MODE_ENCODING p
      | Some h \<Rightarrow>
          (case CHARACTER_SET h of
             None \<Rightarrow> DEFAULT_BYTE_MODE_ENCODING p
           | Some charset \<Rightarrow> charset))"

text \<open>
  \<open>encode\<close> up to the mode marker: the encoding, the mode, the ECI segment if
  applicable and the mode marker. It returns the mode and the header bits.
\<close>

definition encode_headerBits ::
  "Platform \<Rightarrow> jsstring \<Rightarrow> Hints option \<Rightarrow> (WriterException \<times> BitArray) + (Mode \<times> BitArray)" where
  "encode_headerBits p content hints =
     (let encoding = encoding_of p hints;
          mode = chooseMode p content (Some encoding);
          headerBits = [];
          withECI =
            (if mode = BYTE
                \<and> (hasEncodingHint hints \<or> DEFAULT_BYTE_MODE_ENCODING p \<noteq> encoding)
             then (case getCharacterSetECIByName p encoding of
                     Some eci \<Rightarrow> appendECI eci headerBits
                   | None \<Rightarrow> Inr headerBits)
             else Inr headerBits)
      in case andThen withECI (appendModeInfo mode) of
           Inl e \<Rightarrow> Inl e
         | Inr bits \<Rightarrow> Inr (mode, bits))"

section \<open>Notions used in the properties\<close>

text \<open>
  The alphanumeric set of the standard: the digits, the capital letters, the space and
  eight more characters, 45 in all, as code units.
\<close>

definition alphanumericChars :: "nat list" where
  "alphanumericChars = map of_char ''0123456789ABCDEFGHIJKLMNOPQRSTUVWXYZ $%*+-./:''"

text \<open>The first byte of a double-byte kanji: 0x81 to 0x9F or 0xE0 to 0xEB.\<close>

definition kanjiFirstByte :: "byte \<Rightarrow> bool" where
  "kanjiFirstByte b =
     ((0x81 \<le> unat b \<and> unat b \<le> 0x9F) \<or> (0xE0 \<le> unat b \<and> unat b \<le> 0xEB))"

text \<open>
  The bytes two at a time, the combined code of a pair \<open>(b1 << 8) | b2\<close>, the two
  ranges of codes and the 13-bit value of a code in range.
\<close>

fun pairsOf :: "'a list \<Rightarrow> ('a \<times> 'a) list" where
  "pairsOf (a # b # rest) = (a, b) # pairsOf rest"
| "pairsOf rest = []"

definition kanjiCode :: "byte \<Rightarrow> byte \<Rightarrow> int" where
  "kanjiCode b1 b2 = push_bit 8 (uint b1) OR uint b2"

definition kanjiInRange :: "int \<Rightarrow> bool" where
  "kanjiInRange code =
     ((0x8140 \<le> code \<and> code \<le> 0x9FFC) \<or> (0xE040 \<le> code \<and> code \<le> 0xEBBF))"

definition kanjiEncoded :: "int \<Rightarrow> int" where
  "kanjiEncoded code =
     (let subtracted = (if code \<le> 0x9FFC then code - 0x8140 else code - 0xC140)
      in drop_bit 8 subtracted * 0xC0 + (subtracted AND 0xFF))"

text \<open>
  Shift_JIS is an encoding of the platform, not of the encoder. A string in Shift_JIS is
  a sequence of characters of one byte or of two bytes, and the first byte of a two-byte
  character lies in 0x81 to 0x9F or in 0xE0 to 0xFC, where no one-byte character lies.
  This is all that is assumed of the bytes of a Shift_JIS encoding below.
\<close>

definition isLeadByte :: "byte \<Rightarrow> bool" where
  "isLeadByte b =
     ((0x81 \<le> uint b \<and> uint b \<le> 0x9F) \<or> (0xE0 \<le> uint b \<and> uint b \<le> 0xFC))"

fun sjisWellFormed :: "byte list \<Rightarrow> bool" where
  "sjisWellFormed [] = True"
| "sjisWellFormed (b # rest) =
     (if isLeadByte b then rest \<noteq> [] \<and> sjisWellFormed (tl rest) else sjisWellFormed rest)"

subsection \<open>An example platform\<close>

text \<open>
  A platform that knows two character sets by the names and ECI values of the standard's
  assignments, UTF8 (26) and SJIS (20), and encodes a small part of each: the ASCII
  characters in both, as one byte each, and in Shift_JIS the two kanji U+70B9 and U+8317
  as 0x93 0x5F and 0xE4 0xAA. Any other character makes the encoding throw.
\<close>

definition exampleChar :: "string \<Rightarrow> nat \<Rightarrow> byte list option" where
  "exampleChar charset c =
     (if c < 0x80 \<and> (charset = ''UTF8'' \<or> charset = ''SJIS'') then Some [of_nat c]
      else if charset = ''SJIS'' \<and> c = 0x70B9 then Some [0x93, 0x5F]
      else if charset = ''SJIS'' \<and> c = 0x8317 then Some [0xE4, 0xAA]
      else None)"

fun exampleEncode :: "jsstring \<Rightarrow> string \<Rightarrow> byte list option" where
  "exampleEncode [] charset = Some []"
| "exampleEncode (c # rest) charset =
     (case exampleChar charset c of
        None \<Rightarrow> None
      | Some bs \<Rightarrow> map_option (\<lambda>others. bs @ others) (exampleEncode rest charset))"

definition examplePlatform :: Platform where
  "examplePlatform =
     \<lparr> SJIS = \<lparr> getName = ''SJIS'', getValue = 20 \<rparr>,
       UTF8 = \<lparr> getName = ''UTF8'', getValue = 26 \<rparr>,
       getCharacterSetECIByName = (\<lambda>name.
         if name = ''UTF8'' then Some \<lparr> getName = ''UTF8'', getValue = 26 \<rparr>
         else if name = ''SJIS'' then Some \<lparr> getName = ''SJIS'', getValue = 20 \<rparr>
         else None),
       StringEncoding_encode = exampleEncode \<rparr>"

section \<open>Verified properties\<close>

subsection \<open>Bit arrays\<close>

lemma length_toBits [simp]: "length (toBits n v) = n"
  by (simp add: toBits_def)

subsection \<open>Numeric segments\<close>

lemma appendNumericBytes_digits:
  "allDigits s \<Longrightarrow> appendNumericBytes s bits = Inr (bits @ numericBits s)"
proof (induction s bits rule: appendNumericBytes.induct)
  case (1 c1 c2 c3 rest bits)
  then show ?case
    by (simp add: allDigits_def numericBits_def appendBits_def andThen_def getDigit_def
        groupWidth_def decimalValue_def mult.commute)
next
  case (2 c1 c2 bits)
  then show ?case
    by (simp add: allDigits_def numericBits_def appendBits_def getDigit_def
        groupWidth_def decimalValue_def)
next
  case (3 c1 bits)
  then show ?case
    by (simp add: allDigits_def numericBits_def appendBits_def getDigit_def
        groupWidth_def decimalValue_def)
next
  case (4 bits)
  then show ?case by (simp add: numericBits_def)
qed

lemma length_numericBits:
  "length (numericBits s) = 10 * (length s div 3) + [0, 4, 7] ! (length s mod 3)"
proof (induction s rule: groupsOfThree.induct)
  case (1 a b c rest)
  have "length (numericBits (a # b # c # rest)) = 10 + length (numericBits rest)"
    by (simp add: numericBits_def groupWidth_def)
  with 1 show ?case by simp
qed (simp_all add: numericBits_def groupWidth_def)

text \<open>
  C8. For all-digit content of length \<open>n\<close>, \<open>appendNumericBytes\<close> returns, and what it
  has appended is the groups of three digits in 10 bits each, then a last pair in 7 bits
  or a last single digit in 4 bits, each as its decimal value; that is
  \<open>10 * (n div 3)\<close> bits plus 0, 4 or 7 for \<open>n mod 3\<close> being 0, 1 or 2.
\<close>

theorem appendNumericBytes_all_digits:
  assumes "allDigits content"
  shows "appendNumericBytes content bits = Inr (bits @ numericBits content)
       \<and> length (numericBits content) =
           10 * (length content div 3) + [0, 4, 7] ! (length content mod 3)"
  using assms by (simp add: appendNumericBytes_digits length_numericBits)

theorem appendNumericBytes_all_digits_witness:
  "allDigits [49, 50, 51, 52, 53]
   \<and> appendNumericBytes [49, 50, 51, 52, 53] [] =
       Inr [False, False, False, True, True, True, True, False, True, True,
            False, True, False, True, True, False, True]
   \<and> length (numericBits [49, 50, 51, 52, 53]) = 17"
proof -
  have d: "allDigits [49, 50, 51, 52, 53]"
    by (simp add: allDigits_def)
  have b: "numericBits [49, 50, 51, 52, 53] =
      [False, False, False, True, True, True, True, False, True, True,
       False, True, False, True, True, False, True]"
    by (simp add: numericBits_def groupWidth_def decimalValue_def toBits_def upt_rec)
  show ?thesis
    using appendNumericBytes_all_digits [OF d, of "[]"] d b by simp
qed

lemma strToNumFrom_digits:
  "allDigits s \<Longrightarrow> strToNumFrom n s = Inr (foldl (\<lambda>n c. n * 10 + (int c - 48)) n s)"
  by (induction s arbitrary: n) (simp_all add: allDigits_def charToNum_def)

lemma putStr_digits:
  assumes d: "allDigits g" and ne: "g \<noteq> []" and le: "length g \<le> 3"
  shows "putStr g (groupWidth g) buffer = Inr (buffer @ toBits (groupWidth g) (decimalValue g))"
proof -
  have n: "strToNum g = Inr (decimalValue g)"
    using d by (simp add: strToNum_def decimalValue_def strToNumFrom_digits)
  consider a where "g = [a]" | a b where "g = [a, b]" | a b c where "g = [a, b, c]"
    using ne le by (cases g rule: groupsOfThree.cases) auto
  then have "0 \<le> decimalValue g \<and> decimalValue g < 2 ^ groupWidth g"
    using d by cases (auto simp: decimalValue_def groupWidth_def allDigits_def)
  moreover have "groupWidth g \<noteq> 0" "groupWidth g \<le> 32"
    by (simp_all add: groupWidth_def)
  ultimately show ?thesis
    using n by (simp add: putStr_def appendBits_def)
qed

lemma QRNumeric_write_triple:
  "QRNumeric_write (c1 # c2 # c3 # rest) buffer =
     andThen (putStr [c1, c2, c3] 10 buffer) (QRNumeric_write rest)"
  by (simp add: QRNumeric_write_def andThen_def split: sum.splits)

lemma putStr_group:
  "allDigits [a] \<Longrightarrow> putStr [a] 4 buffer = Inr (buffer @ toBits 4 (decimalValue [a]))"
  "allDigits [a, b] \<Longrightarrow>
     putStr [a, b] 7 buffer = Inr (buffer @ toBits 7 (decimalValue [a, b]))"
  "allDigits [a, b, c] \<Longrightarrow>
     putStr [a, b, c] 10 buffer = Inr (buffer @ toBits 10 (decimalValue [a, b, c]))"
  using putStr_digits [of "[a]" buffer] putStr_digits [of "[a, b]" buffer]
    putStr_digits [of "[a, b, c]" buffer]
  by (simp_all add: groupWidth_def)

lemma QRNumeric_write_digits:
  "allDigits s \<Longrightarrow> QRNumeric_write s bits = Inr (bits @ numericBits s)"
proof (induction s arbitrary: bits rule: groupsOfThree.induct)
  case (1 a b c rest)
  have g: "allDigits [a, b, c]" and r: "allDigits rest"
    using "1.prems" by (simp_all add: allDigits_def)
  show ?case
    using "1.IH" [OF r]
    by (simp add: QRNumeric_write_triple andThen_def numericBits_def groupWidth_def
        putStr_group(3) [OF g])
qed (simp_all add: QRNumeric_write_def numericBits_def groupWidth_def putStr_group)

text \<open>
  C10. On a string of the characters \<open>0\<close> to \<open>9\<close> only, \<open>QRNumeric.write\<close> on an
  empty buffer and \<open>Encoder.appendNumericBytes\<close> on an empty bit array both return and
  leave the same bits.
\<close>

theorem QRNumeric_write_agrees_with_appendNumericBytes:
  assumes "allDigits s"
  shows "QRNumeric_write s [] = appendNumericBytes s []
       \<and> thrown (appendNumericBytes s []) = None"
  using assms by (simp add: QRNumeric_write_digits appendNumericBytes_digits thrown_def)

theorem QRNumeric_write_agrees_with_appendNumericBytes_witness:
  "allDigits [57, 48, 55, 49]
   \<and> QRNumeric_write [57, 48, 55, 49] [] = appendNumericBytes [57, 48, 55, 49] []
   \<and> appendNumericBytes [57, 48, 55, 49] [] =
       Inr [True, True, True, False, False, False, True, False, True, True,
            False, False, False, True]"
proof -
  have d: "allDigits [57, 48, 55, 49]"
    by (simp add: allDigits_def)
  have "appendNumericBytes [57, 48, 55, 49] [] =
       Inr [True, True, True, False, False, False, True, False, True, True,
            False, False, False, True]"
    by (simp add: appendBits_def andThen_def getDigit_def toBits_def upt_rec)
  then show ?thesis
    using QRNumeric_write_agrees_with_appendNumericBytes [OF d] d by simp
qed

subsection \<open>The character count\<close>

lemma getCharacterCountBits_cases:
  "getCharacterCountBits mode version \<in> {8, 9, 10, 11, 12, 13, 14, 16}"
  by (cases mode) (simp_all add: getCharacterCountBits_def Let_def)

lemma shiftLeftOne_small: "n \<in> {8, 9, 10, 11, 12, 13, 14, 16} \<Longrightarrow> shiftLeftOne n = 2 ^ n"
  by (auto simp: shiftLeftOne_def)

lemma appendLengthInfo_eq:
  "appendLengthInfo numLetters version mode bits =
     (if numLetters \<ge> 2 ^ getCharacterCountBits mode version then Inl (LengthTooBig, bits)
      else Inr (bits @ toBits (getCharacterCountBits mode version) (int numLetters)))"
proof -
  let ?n = "getCharacterCountBits mode version"
  have m: "?n \<in> {8, 9, 10, 11, 12, 13, 14, 16}" by (rule getCharacterCountBits_cases)
  have s: "shiftLeftOne ?n = 2 ^ ?n" using m by (rule shiftLeftOne_small)
  have r: "?n \<noteq> 0" "?n \<le> 32" using m by auto
  have e: "(int numLetters \<ge> 2 ^ ?n) = (numLetters \<ge> 2 ^ ?n)"
    by (metis of_nat_le_iff of_nat_numeral of_nat_power)
  show ?thesis
    using s r e by (simp add: appendLengthInfo_def Let_def appendBits_def)
qed

text \<open>
  C9. \<open>appendLengthInfo\<close> throws exactly when \<open>numLetters\<close> is at least 2 to the power
  of the character-count width of the mode at the version, leaving the bits as they were,
  and otherwise appends \<open>numLetters\<close> in exactly that many bits; a count of
  \<open>2 ^ width - 1\<close> is written and a count of \<open>2 ^ width\<close> is refused.
\<close>

theorem appendLengthInfo_fails_iff_too_long:
  "appendLengthInfo numLetters version mode bits =
     (if numLetters \<ge> 2 ^ getCharacterCountBits mode version then Inl (LengthTooBig, bits)
      else Inr (bits @ toBits (getCharacterCountBits mode version) (int numLetters)))
   \<and> thrown (appendLengthInfo (2 ^ getCharacterCountBits mode version - 1) version mode bits)
       = None
   \<and> thrown (appendLengthInfo (2 ^ getCharacterCountBits mode version) version mode bits)
       = Some LengthTooBig"
proof -
  have "\<not> (2::nat) ^ getCharacterCountBits mode version
          \<le> 2 ^ getCharacterCountBits mode version - 1"
    by (simp add: not_le)
  then show ?thesis
    by (simp add: appendLengthInfo_eq thrown_def)
qed

theorem appendLengthInfo_fails_iff_too_long_witness:
  "appendLengthInfo 255 version7 BYTE [] =
     Inr [True, True, True, True, True, True, True, True]
   \<and> appendLengthInfo 256 version7 BYTE [] = Inl (LengthTooBig, [])"
proof -
  have w: "getCharacterCountBits BYTE version7 = 8"
    by (simp add: getCharacterCountBits_def version7_def)
  have b: "toBits 8 255 = [True, True, True, True, True, True, True, True]"
    by (simp add: toBits_def upt_rec)
  show ?thesis
    using appendLengthInfo_fails_iff_too_long [of 255 version7 BYTE "[]"]
      appendLengthInfo_fails_iff_too_long [of 256 version7 BYTE "[]"] w b
    by simp
qed

subsection \<open>The bytes of a block\<close>

lemma sum_two_groups:
  assumes "g \<le> n"
  shows "(\<Sum>b<n. if b < g then x else x + (1::int)) = int n * x + int (n - g)"
  using assms
proof (induction n)
  case 0
  then show ?case by simp
next
  case (Suc n)
  then show ?case by (cases "g = Suc n") (auto simp: algebra_simps)
qed

lemma sum_block_bytes:
  assumes "0 < n"
  shows "(\<Sum>b<n. dataBytesInBlock t d n b + ecBytesInBlock t d n) = int t"
proof -
  have g: "n - t mod n \<le> n" by simp
  have "(\<Sum>b<n. dataBytesInBlock t d n b + ecBytesInBlock t d n)
        = (\<Sum>b<n. dataBytesInBlock t d n b) + int n * ecBytesInBlock t d n"
    by (simp add: sum.distrib)
  also have "(\<Sum>b<n. dataBytesInBlock t d n b) = int n * int (d div n) + int (n - (n - t mod n))"
    unfolding dataBytesInBlock_def by (rule sum_two_groups [OF g])
  also have "int (n - (n - t mod n)) = int (t mod n)"
    using assms by simp
  finally show ?thesis
    using assms by (simp add: ecBytesInBlock_def algebra_simps flip: of_nat_mult of_nat_add)
qed

lemma toInt32_id: "- (2 ^ 31) \<le> x \<Longrightarrow> x < 2 ^ 31 \<Longrightarrow> toInt32 x = x"
  by (simp add: toInt32_def sint_sbintrunc' signed_take_bit_int_eq_self)

lemma dataBytesInBlock_nonneg: "0 \<le> dataBytesInBlock t d n b"
  by (simp add: dataBytesInBlock_def)

lemma int_div_bound:
  assumes "d < (2 :: nat) ^ 31"
  shows "int (d div n) < 2 ^ 31"
proof -
  have "d div n < 2 ^ 31"
    by (rule le_less_trans [OF div_le_dividend assms])
  then have "int (d div n) < int (2 ^ 31)"
    by (simp only: of_nat_less_iff)
  then show ?thesis by simp
qed

lemma dataBytesInBlock_bound:
  assumes d: "d < 2 ^ 31" and b: "b < n"
  shows "dataBytesInBlock t d n b < 2 ^ 31"
proof (cases "b < n - t mod n")
  case True
  have "int (d div n) < 2 ^ 31" using d by (rule int_div_bound)
  then show ?thesis using True by (simp add: dataBytesInBlock_def)
next
  case False
  then have "0 < t mod n" using b by linarith
  then have "2 \<le> n" by (cases "n = 1") (use b in simp_all)
  then have "d div n \<le> d div 2" by (simp add: div_le_mono2)
  moreover have "d div 2 < 2 ^ 30" using d by simp
  ultimately have "int (d div n) + 1 < 2 ^ 31" by simp
  then show ?thesis using False by (simp add: dataBytesInBlock_def)
qed

lemma ecBytesInBlock_bounds:
  assumes "t < 2 ^ 31" and "d < 2 ^ 31"
  shows "- (2 ^ 31) \<le> ecBytesInBlock t d n" and "ecBytesInBlock t d n < 2 ^ 31"
proof -
  have "int (t div n) < 2 ^ 31" "int (d div n) < 2 ^ 31"
    by (rule int_div_bound [OF assms(1)], rule int_div_bound [OF assms(2)])
  then show "- (2 ^ 31) \<le> ecBytesInBlock t d n" and "ecBytesInBlock t d n < 2 ^ 31"
    by (simp_all add: ecBytesInBlock_def)
qed

lemma getNumDataBytesAndNumECBytesForBlockID_cells:
  "getNumDataBytesAndNumECBytesForBlockID t d n b =
     (if b \<ge> n then Inl BlockIDTooLarge
      else Inr (toInt32 (dataBytesInBlock t d n b), toInt32 (ecBytesInBlock t d n)))"
proof (cases "b \<ge> n")
  case True
  then show ?thesis by (simp add: getNumDataBytesAndNumECBytesForBlockID_def)
next
  case False
  then have n: "0 < n" by simp
  have tot: "int t = int (t div n) * (int n - int (t mod n)) + (int (t div n) + 1) * int (t mod n)"
    by (simp add: algebra_simps flip: of_nat_mult of_nat_add)
  have lt: "(int b < int n - int (t mod n)) = (b < n - t mod n)"
    by linarith
  show ?thesis
    using False tot lt
    by (simp add: getNumDataBytesAndNumECBytesForBlockID_def Let_def dataBytesInBlock_def
        ecBytesInBlock_def)
qed

lemma getNumDataBytesAndNumECBytesForBlockID_eq:
  assumes "t < 2 ^ 31" and "d < 2 ^ 31"
  shows "getNumDataBytesAndNumECBytesForBlockID t d n b =
     (if b \<ge> n then Inl BlockIDTooLarge
      else Inr (dataBytesInBlock t d n b, ecBytesInBlock t d n))"
proof (cases "b \<ge> n")
  case True
  then show ?thesis by (simp add: getNumDataBytesAndNumECBytesForBlockID_cells)
next
  case False
  then have b: "b < n" by simp
  have "- (2 ^ 31) \<le> dataBytesInBlock t d n b"
    using dataBytesInBlock_nonneg [of t d n b] by simp
  then have "toInt32 (dataBytesInBlock t d n b) = dataBytesInBlock t d n b"
    using dataBytesInBlock_bound [OF assms(2) b] by (rule toInt32_id)
  moreover have "toInt32 (ecBytesInBlock t d n) = ecBytesInBlock t d n"
    using ecBytesInBlock_bounds [OF assms] by (rule toInt32_id)
  ultimately show ?thesis
    using False by (simp add: getNumDataBytesAndNumECBytesForBlockID_cells)
qed

text \<open>
  C7, for counts below \<open>2 ^ 31\<close>. With \<open>numRSBlocks > 0\<close> and
  \<open>blockID < numRSBlocks\<close> the call returns: the block has
  \<open>numDataBytes div numRSBlocks\<close> data bytes when
  \<open>blockID < numRSBlocks - numTotalBytes mod numRSBlocks\<close> and one more otherwise, and
  \<open>numTotalBytes div numRSBlocks - numDataBytes div numRSBlocks\<close> error correction
  bytes, the same for every block; over all blocks the data and error correction bytes sum
  to \<open>numTotalBytes\<close>. With \<open>blockID \<ge> numRSBlocks\<close> it throws. The two groups' error
  correction counts are equal by arithmetic, so the throw that guards them is never taken.
\<close>

theorem getNumDataBytesAndNumECBytesForBlockID_blocks:
  assumes "numTotalBytes < 2 ^ 31" and "numDataBytes < 2 ^ 31" and "numRSBlocks < 2 ^ 31"
  shows "getNumDataBytesAndNumECBytesForBlockID numTotalBytes numDataBytes numRSBlocks blockID =
     (if blockID \<ge> numRSBlocks then Inl BlockIDTooLarge
      else Inr (dataBytesInBlock numTotalBytes numDataBytes numRSBlocks blockID,
                ecBytesInBlock numTotalBytes numDataBytes numRSBlocks))
   \<and> (0 < numRSBlocks \<longrightarrow>
        (\<Sum>b<numRSBlocks. dataBytesInBlock numTotalBytes numDataBytes numRSBlocks b
            + ecBytesInBlock numTotalBytes numDataBytes numRSBlocks) = int numTotalBytes)"
  using getNumDataBytesAndNumECBytesForBlockID_eq [OF assms(1) assms(2)]
  by (simp add: sum_block_bytes)

theorem getNumDataBytesAndNumECBytesForBlockID_blocks_witness:
  "(196::nat) < 2 ^ 31 \<and> (66::nat) < 2 ^ 31 \<and> (5::nat) < 2 ^ 31 \<and> (0::nat) < 5
   \<and> getNumDataBytesAndNumECBytesForBlockID 196 66 5 3 = Inr (13, 26)
   \<and> getNumDataBytesAndNumECBytesForBlockID 196 66 5 4 = Inr (14, 26)
   \<and> getNumDataBytesAndNumECBytesForBlockID 196 66 5 5 = Inl BlockIDTooLarge
   \<and> (\<Sum>b<5. dataBytesInBlock 196 66 5 b + ecBytesInBlock 196 66 5) = 196"
proof -
  have h: "(196::nat) < 2 ^ 31" "(66::nat) < 2 ^ 31" "(5::nat) < 2 ^ 31"
    by simp_all
  show ?thesis
    using getNumDataBytesAndNumECBytesForBlockID_blocks [OF h, of 3]
      getNumDataBytesAndNumECBytesForBlockID_blocks [OF h, of 4]
      getNumDataBytesAndNumECBytesForBlockID_blocks [OF h, of 5]
    by (simp add: dataBytesInBlock_def ecBytesInBlock_def)
qed

text \<open>
  C7, as stated for every count, fails: a count of \<open>2 ^ 31\<close> data bytes does not fit
  the cell. With 2147483658 bytes in all, 2147483648 of them data, in one block, the
  block's data bytes are 2147483648 by the division, and the cell holds -2147483648.
\<close>

theorem getNumDataBytesAndNumECBytesForBlockID_counterexample:
  "dataBytesInBlock 2147483658 2147483648 1 0 = 2147483648
   \<and> getNumDataBytesAndNumECBytesForBlockID 2147483658 2147483648 1 0
       = Inr (- 2147483648, 10)"
  by (simp add: getNumDataBytesAndNumECBytesForBlockID_cells dataBytesInBlock_def
      ecBytesInBlock_def toInt32_def)

subsection \<open>Termination and padding\<close>

lemma alignmentBits_aligns: "(n + alignmentBits n) mod 8 = 0"
proof -
  define r where "r = n mod 8"
  have r: "r < 8" by (simp add: r_def)
  have "(n + alignmentBits n) mod 8 = (r + (8 - r) mod 8) mod 8"
    unfolding alignmentBits_def r_def by (simp add: mod_add_left_eq)
  also have "\<dots> = 0"
    using r by (cases "r = 0") simp_all
  finally show ?thesis .
qed

lemma alignmentBits_le:
  assumes "int n \<le> c * 8"
  shows "int (n + alignmentBits n) \<le> c * 8"
proof -
  have "(n + alignmentBits n) mod 8 = 0" by (rule alignmentBits_aligns)
  then obtain q where q: "n + alignmentBits n = 8 * q"
    by (auto simp: mod_eq_0_iff_dvd)
  have "alignmentBits n < 8" by (simp add: alignmentBits_def)
  then have "8 * int q < int n + 8"
    using q by linarith
  then have "int q \<le> c"
    using assms by linarith
  then show ?thesis
    using q by simp
qed

lemma terminatorLoop_eq:
  "terminatorLoop i capacity bits =
     bits @ replicate (min (4 - i) (nat (capacity - int (length bits)))) False"
proof (induction i capacity bits rule: terminatorLoop.induct)
  case (1 i capacity bits)
  show ?case
  proof (cases "i < 4 \<and> int (getSize bits) < capacity")
    case True
    then have "min (4 - i) (nat (capacity - int (length bits)))
        = Suc (min (4 - (i + 1)) (nat (capacity - int (length (appendBit False bits)))))"
      unfolding getSize_def appendBit_def by (simp add: min_def) linarith
    then show ?thesis
      using True "1.IH"
      by (subst terminatorLoop.simps) (simp add: appendBit_def replicate_app_Cons_same)
  next
    case False
    then have "min (4 - i) (nat (capacity - int (length bits))) = 0"
      by (auto simp: getSize_def)
    moreover have "terminatorLoop i capacity bits = bits"
      using False by (subst terminatorLoop.simps) auto
    ultimately show ?thesis by simp
  qed
qed

lemma fold_appendBit: "fold (\<lambda>i. appendBit False) xs bits = bits @ replicate (length xs) False"
  by (induction xs arbitrary: bits) (simp_all add: appendBit_def replicate_app_Cons_same)

lemma paddingLoop_eq:
  "paddingLoop is bits =
     Inr (bits @ concat (map (\<lambda>i. toBits 8 (if even i then 0xEC else 0x11)) is))"
  by (induction "is" arbitrary: bits)
    (simp_all add: appendBits_def andThen_def even_iff_mod_2_eq_zero)

lemma length_paddingBytes: "length (paddingBytes k) = 8 * k"
  by (induction k) (simp_all add: paddingBytes_def)

lemma terminateBits_eq:
  "terminateBits numDataBytes bits =
     (if int (length bits) > numDataBytes * 8 then Inl (DataBitsCannotFit, bits)
      else
        let t = terminatorBits numDataBytes bits;
            z = alignmentBits (length bits + t);
            k = nat numDataBytes - (length bits + t + z) div 8
        in Inr (bits @ replicate t False @ replicate z False @ paddingBytes k))"
  and terminateBits_size:
  "int (length bits) \<le> numDataBytes * 8 \<Longrightarrow>
     (let t = terminatorBits numDataBytes bits;
          z = alignmentBits (length bits + t);
          k = nat numDataBytes - (length bits + t + z) div 8
      in length (bits @ replicate t False @ replicate z False @ paddingBytes k)
           = nat (numDataBytes * 8))"
proof -
  define t where "t = terminatorBits numDataBytes bits"
  define z where "z = alignmentBits (length bits + t)"
  define k where "k = nat numDataBytes - (length bits + t + z) div 8"
  define bits1 where "bits1 = bits @ replicate t False"
  define bits2 where "bits2 = bits1 @ replicate z False"
  have l1: "length bits1 = length bits + t" by (simp add: bits1_def)
  have b1: "terminatorLoop 0 (numDataBytes * 8) bits = bits1"
    by (simp add: terminatorLoop_eq bits1_def t_def terminatorBits_def)
  have z0: "z = 0" if "length bits1 mod 8 = 0"
    using that by (simp add: z_def alignmentBits_def l1)
  have z1: "z = 8 - length bits1 mod 8" if "length bits1 mod 8 \<noteq> 0"
    using that by (simp add: z_def alignmentBits_def l1)
  have b2: "(if getSize bits1 mod 8 > 0
             then fold (\<lambda>i. appendBit False) [getSize bits1 mod 8..<8] bits1 else bits1) = bits2"
    using z0 z1 by (simp add: fold_appendBit bits2_def getSize_def)
  have l2: "length bits2 = length bits + t + z" by (simp add: bits2_def l1)
  have "(length bits + t + z) mod 8 = 0"
    unfolding z_def by (rule alignmentBits_aligns)
  then obtain q where q: "length bits + t + z = 8 * q"
    by (auto simp: mod_eq_0_iff_dvd)
  have sb: "getSizeInBytes bits2 = q"
    by (simp add: getSizeInBytes_def l2 q)
  have k: "nat (numDataBytes - int (getSizeInBytes bits2)) = k"
    by (simp add: sb k_def q nat_diff_distrib')
  have size: "length (bits2 @ paddingBytes k) = nat (numDataBytes * 8)"
    if le: "int (length bits) \<le> numDataBytes * 8"
  proof -
    have "int (length bits + t) \<le> numDataBytes * 8"
      using le by (simp add: t_def terminatorBits_def min_def) linarith
    then have "int (length bits + t + z) \<le> numDataBytes * 8"
      unfolding z_def by (rule alignmentBits_le)
    then have "int q \<le> numDataBytes"
      by (simp add: q)
    then have "8 * q + 8 * (nat numDataBytes - q) = nat (numDataBytes * 8)"
      by linarith
    then show ?thesis
      by (simp add: l2 length_paddingBytes k_def q)
  qed
  show "terminateBits numDataBytes bits =
     (if int (length bits) > numDataBytes * 8 then Inl (DataBitsCannotFit, bits)
      else
        let t = terminatorBits numDataBytes bits;
            z = alignmentBits (length bits + t);
            k = nat numDataBytes - (length bits + t + z) div 8
        in Inr (bits @ replicate t False @ replicate z False @ paddingBytes k))"
  proof (cases "int (length bits) > numDataBytes * 8")
    case True
    then show ?thesis by (simp add: terminateBits_def getSize_def)
  next
    case False
    then have le: "int (length bits) \<le> numDataBytes * 8" by simp
    have p: "paddingLoop [0..<k] bits2 = Inr (bits2 @ paddingBytes k)"
      by (simp add: paddingLoop_eq paddingBytes_def)
    have "terminateBits numDataBytes bits =
        andThen (paddingLoop [0..<k] bits2)
          (\<lambda>bits3. if int (getSize bits3) \<noteq> numDataBytes * 8
                    then Inl (BitsSizeNotCapacity, bits3) else Inr bits3)"
      unfolding terminateBits_def Let_def b1 b2 k using False by (simp add: getSize_def)
    also have "\<dots> = Inr (bits2 @ paddingBytes k)"
      unfolding p andThen_def using size [OF le] le by (simp add: getSize_def)
    finally show ?thesis
      using False unfolding Let_def bits2_def bits1_def t_def z_def k_def by simp
  qed
  show "int (length bits) \<le> numDataBytes * 8 \<Longrightarrow>
     (let t = terminatorBits numDataBytes bits;
          z = alignmentBits (length bits + t);
          k = nat numDataBytes - (length bits + t + z) div 8
      in length (bits @ replicate t False @ replicate z False @ paddingBytes k)
           = nat (numDataBytes * 8))"
    using size unfolding Let_def bits2_def bits1_def t_def z_def k_def by simp
qed

text \<open>
  C5. When the bits do not exceed the capacity \<open>numDataBytes * 8\<close>, \<open>terminateBits\<close>
  returns with, appended in this order, at most four 0 bits (as many as the capacity
  leaves room for), 0 bits up to the byte boundary, and the bytes 0xEC and 0x11 in turn
  for every whole byte left; the size is then the capacity exactly. When the bits exceed
  the capacity it throws and the bits are as they were.
\<close>

theorem terminateBits_fills_capacity:
  "terminateBits numDataBytes bits =
     (if int (getSize bits) > numDataBytes * 8 then Inl (DataBitsCannotFit, bits)
      else
        let t = terminatorBits numDataBytes bits;
            z = alignmentBits (getSize bits + t);
            k = nat numDataBytes - (getSize bits + t + z) div 8
        in Inr (bits @ replicate t False @ replicate z False @ paddingBytes k))
   \<and> (int (getSize bits) \<le> numDataBytes * 8 \<longrightarrow>
        (\<exists>bits'. terminateBits numDataBytes bits = Inr bits'
                \<and> int (getSize bits') = numDataBytes * 8))"
proof -
  have "int (length bits) \<le> numDataBytes * 8 \<Longrightarrow>
        \<exists>bits'. terminateBits numDataBytes bits = Inr bits'
              \<and> int (length bits') = numDataBytes * 8"
    using terminateBits_size [of bits numDataBytes]
    by (simp add: terminateBits_eq Let_def)
  then show ?thesis
    by (simp add: getSize_def terminateBits_eq)
qed

theorem terminateBits_fills_capacity_witness:
  "int (getSize [True, False, True]) \<le> 3 * 8
   \<and> terminateBits 3 [True, False, True] =
       Inr ([True, False, True] @ [False, False, False, False] @ [False]
            @ [True, True, True, False, True, True, False, False]
            @ [False, False, False, True, False, False, False, True])
   \<and> terminateBits 0 [True] = Inl (DataBitsCannotFit, [True])"
proof -
  have p: "paddingBytes 2 = [True, True, True, False, True, True, False, False,
      False, False, False, True, False, False, False, True]"
    by (simp add: paddingBytes_def toBits_def upt_rec)
  have k: "(3::nat) - Suc 0 = 2" by simp
  have r: "replicate 4 False = [False, False, False, False]"
    by (simp add: numeral_eq_Suc)
  show ?thesis
    using terminateBits_fills_capacity [of 3 "[True, False, True]"]
      terminateBits_fills_capacity [of 0 "[True]"]
    by (simp add: getSize_def terminatorBits_def alignmentBits_def Let_def p k r)
qed

subsection \<open>Version selection\<close>

lemma willFit_iff:
  "willFit numInputBits version ecLevel
     \<longleftrightarrow> int numInputBits + 7 \<le> 8 * numDataCodewords version ecLevel"
proof -
  let ?d = "numDataCodewords version ecLevel"
  have "((of_nat numInputBits + 7) / (8 :: rat) \<le> of_int ?d)
      \<longleftrightarrow> (of_nat numInputBits + 7 \<le> (of_int ?d * 8 :: rat))"
    by (simp add: pos_divide_le_eq)
  also have "(of_nat numInputBits + 7 :: rat) = of_int (int numInputBits + 7)"
    by simp
  also have "(of_int ?d * 8 :: rat) = of_int (8 * ?d)"
    by simp
  also have "((of_int (int numInputBits + 7) :: rat) \<le> of_int (8 * ?d))
      \<longleftrightarrow> int numInputBits + 7 \<le> 8 * ?d"
    by (rule of_int_le_iff)
  finally show ?thesis
    by (simp add: willFit_def numDataCodewords_def Let_def)
qed

lemma fitsByCeiling_iff:
  "fitsByCeiling numInputBits version ecLevel
     \<longleftrightarrow> int numInputBits \<le> 8 * numDataCodewords version ecLevel"
  unfolding fitsByCeiling_def by linarith

lemma numDataCodewords_version7: "numDataCodewords version7 H = 66"
  by (simp add: numDataCodewords_def version7_def getTotalCodewords_def
      getECBlocksForLevel_def getTotalECCodewords_def getNumBlocks_def)

text \<open>
  C1. \<open>willFit\<close> at version 7, level H, with its 66 data codewords, and 528 bits of
  input: the bits round up to 66 bytes and fill the symbol exactly, and \<open>willFit\<close>
  answers that they do not fit, because its quotient \<open>(528 + 7) / 8\<close> is 66.875. With
  every version of the table as large as version 7, \<open>chooseVersion\<close> finds none that fits.
\<close>

theorem willFit_refuses_full_symbol:
  "numDataCodewords version7 H = 66
   \<and> fitsByCeiling 528 version7 H
   \<and> \<not> willFit 528 version7 H
   \<and> chooseVersion (\<lambda>versionNum. version7) 528 H = Inl DataTooBig"
proof -
  have w: "\<not> willFit 528 version7 H"
    by (simp add: willFit_iff numDataCodewords_version7)
  have "find (\<lambda>versionNum. willFit 528 version7 H) xs = None" for xs :: "nat list"
    using w by (induction xs) simp_all
  then show ?thesis
    using w by (simp add: fitsByCeiling_iff numDataCodewords_version7 chooseVersion_def)
qed

subsection \<open>Mode selection\<close>

lemma alphanumericChars_upt:
  "alphanumericChars = [48..<58] @ [65..<91] @ [32, 36, 37, 42, 43, 45, 46, 47, 58]"
  by code_simp

lemma alphanumeric_iff:
  "c \<in> set alphanumericChars \<longleftrightarrow>
     (48 \<le> c \<and> c < 58) \<or> (65 \<le> c \<and> c < 91) \<or> c \<in> {32, 36, 37, 42, 43, 45, 46, 47, 58}"
  unfolding alphanumericChars_upt set_append set_upt by auto


lemma table_below_96:
  "\<forall>c < 96. (ALPHANUMERIC_TABLE ! c \<noteq> -1) =
      ((48 \<le> c \<and> c < 58) \<or> (65 \<le> c \<and> c < 91) \<or> c \<in> {32, 36, 37, 42, 43, 45, 46, 47, 58})"
  unfolding ALPHANUMERIC_TABLE_def
  by (simp add: All_less_Suc numeral_eq_Suc del: upt_Suc)

lemma getAlphanumericCode_iff:
  "(getAlphanumericCode c \<noteq> -1) = (c \<in> set alphanumericChars)"
proof (cases "c < 96")
  case True
  then show ?thesis
    using table_below_96
    by (simp add: getAlphanumericCode_def ALPHANUMERIC_TABLE_def alphanumeric_iff)
next
  case False
  then have "c \<notin> set alphanumericChars"
    unfolding alphanumeric_iff by auto
  then show ?thesis
    using False by (simp add: getAlphanumericCode_def ALPHANUMERIC_TABLE_def)
qed

lemma isDigit_iff: "isDigit c = (48 \<le> c \<and> c \<le> 57)"
  by (auto simp: isDigit_def getDigit_def Let_def)

lemma digit_alphanumeric: "48 \<le> c \<Longrightarrow> c \<le> 57 \<Longrightarrow> c \<in> set alphanumericChars"
  unfolding alphanumeric_iff by simp

lemma chooseModeScan_eq:
  "chooseModeScan content hasNumeric hasAlphanumeric =
     (if \<exists>c \<in> set content. c \<notin> set alphanumericChars then BYTE
      else if hasAlphanumeric \<or> (\<exists>c \<in> set content. \<not> (48 \<le> c \<and> c \<le> 57)) then ALPHANUMERIC
      else if hasNumeric \<or> (\<exists>c \<in> set content. 48 \<le> c \<and> c \<le> 57) then NUMERIC
      else BYTE)"
proof (induction content arbitrary: hasNumeric hasAlphanumeric)
  case Nil
  show ?case by simp
next
  case (Cons c rest)
  show ?case
  proof (cases "48 \<le> c \<and> c \<le> 57")
    case True
    then have "c \<in> set alphanumericChars" by (simp add: digit_alphanumeric)
    then show ?thesis
      using True by (simp add: isDigit_iff Cons.IH)
  next
    case False
    show ?thesis
    proof (cases "c \<in> set alphanumericChars")
      case True
      then show ?thesis
        using False by (auto simp: isDigit_iff getAlphanumericCode_iff Cons.IH)
    next
      case no: False
      then show ?thesis
        using False by (auto simp: isDigit_iff getAlphanumericCode_iff)
    qed
  qed
qed

lemma firstBytesAreKanji_iff:
  "even (length bytes) \<Longrightarrow>
   firstBytesAreKanji bytes = (\<forall>i. 2 * i < length bytes \<longrightarrow> kanjiFirstByte (bytes ! (2 * i)))"
proof (induction bytes rule: induct_list012)
  case 1
  show ?case by simp
next
  case (2 b)
  then show ?case by simp
next
  case (3 b1 b2 rest)
  have ev: "even (length rest)" using "3.prems" by simp
  have k: "(\<not> ((unat b1 < 0x81 \<or> unat b1 > 0x9f) \<and> (unat b1 < 0xe0 \<or> unat b1 > 0xeb)))
      = kanjiFirstByte b1"
    by (auto simp: kanjiFirstByte_def)
  have "(\<forall>i. 2 * i < length (b1 # b2 # rest) \<longrightarrow> kanjiFirstByte ((b1 # b2 # rest) ! (2 * i)))
      = (kanjiFirstByte b1 \<and> (\<forall>i. 2 * i < length rest \<longrightarrow> kanjiFirstByte (rest ! (2 * i))))"
    (is "?l = ?r")
  proof
    assume l: ?l
    have "kanjiFirstByte b1" using l [rule_format, of 0] by simp
    moreover have "kanjiFirstByte (rest ! (2 * i))" if "2 * i < length rest" for i
      using l [rule_format, of "Suc i"] that by simp
    ultimately show ?r by simp
  next
    assume r: ?r
    show ?l
    proof (intro allI impI)
      fix i assume "2 * i < length (b1 # b2 # rest)"
      then show "kanjiFirstByte ((b1 # b2 # rest) ! (2 * i))"
        using r by (cases i) simp_all
    qed
  qed
  then show ?case
    using "3.IH"(1) [OF ev] k by (auto simp: Let_def)
qed

text \<open>
  C4. Without a hint naming Shift_JIS, \<open>chooseMode\<close> answers Byte if some character is
  outside the alphanumeric set, else Alphanumeric if some character is not a digit, else
  Numeric if some character is a digit, and Byte for the empty string. With the hint
  naming Shift_JIS it answers Kanji exactly when \<open>isOnlyDoubleByteKanji\<close> holds, and
  that holds exactly when the Shift_JIS encoding succeeds, has an even number of bytes
  and the first byte of every pair is in 0x81 to 0x9F or in 0xE0 to 0xEB.
\<close>

theorem chooseMode_classifies:
  "(encoding \<noteq> Some (getName (SJIS p)) \<longrightarrow>
      chooseMode p content encoding =
        (if \<exists>c \<in> set content. c \<notin> set alphanumericChars then BYTE
         else if \<exists>c \<in> set content. \<not> (48 \<le> c \<and> c \<le> 57) then ALPHANUMERIC
         else if \<exists>c \<in> set content. 48 \<le> c \<and> c \<le> 57 then NUMERIC
         else BYTE))
   \<and> (content = [] \<and> encoding \<noteq> Some (getName (SJIS p)) \<longrightarrow> chooseMode p content encoding = BYTE)
   \<and> (encoding = Some (getName (SJIS p)) \<longrightarrow>
        (chooseMode p content encoding = KANJI) = isOnlyDoubleByteKanji p content)
   \<and> isOnlyDoubleByteKanji p content =
        (\<exists>bytes. StringEncoding_encode p content (getName (SJIS p)) = Some bytes
           \<and> even (length bytes)
           \<and> (\<forall>i. 2 * i < length bytes \<longrightarrow> kanjiFirstByte (bytes ! (2 * i))))"
proof -
  have scan: "chooseModeScan content False False \<noteq> KANJI"
    by (simp add: chooseModeScan_eq)
  have k: "isOnlyDoubleByteKanji p content =
        (\<exists>bytes. StringEncoding_encode p content (getName (SJIS p)) = Some bytes
           \<and> even (length bytes)
           \<and> (\<forall>i. 2 * i < length bytes \<longrightarrow> kanjiFirstByte (bytes ! (2 * i))))"
  proof (cases "StringEncoding_encode p content (getName (SJIS p))")
    case None
    then show ?thesis by (simp add: isOnlyDoubleByteKanji_def)
  next
    case (Some bytes)
    show ?thesis
    proof (cases "even (length bytes)")
      case True
      then show ?thesis
        using Some firstBytesAreKanji_iff [OF True]
        by (simp add: isOnlyDoubleByteKanji_def even_iff_mod_2_eq_zero)
    next
      case False
      then show ?thesis
        using Some by (simp add: isOnlyDoubleByteKanji_def even_iff_mod_2_eq_zero)
    qed
  qed
  show ?thesis
    using scan k by (auto simp: chooseMode_def chooseModeScan_eq)
qed

lemma example_SJIS_name: "getName (SJIS examplePlatform) = ''SJIS''"
  by (simp add: examplePlatform_def)

lemma example_encode: "StringEncoding_encode examplePlatform = exampleEncode"
  by (simp add: examplePlatform_def)

theorem chooseMode_classifies_witness:
  "chooseMode examplePlatform [72, 69, 76, 76, 79, 32, 49] None = ALPHANUMERIC
   \<and> chooseMode examplePlatform [] None = BYTE
   \<and> chooseMode examplePlatform [52, 50] (Some ''UTF8'') = NUMERIC
   \<and> chooseMode examplePlatform [104, 105] None = BYTE
   \<and> chooseMode examplePlatform [0x70B9, 0x8317] (Some ''SJIS'') = KANJI
   \<and> StringEncoding_encode examplePlatform [0x70B9, 0x8317] ''SJIS''
       = Some [0x93, 0x5F, 0xE4, 0xAA]"
proof -
  have e: "StringEncoding_encode examplePlatform [0x70B9, 0x8317] ''SJIS''
       = Some [0x93, 0x5F, 0xE4, 0xAA]"
    by (simp add: example_encode exampleChar_def)
  have k: "\<forall>i. 2 * i < length [0x93, 0x5F, 0xE4, 0xAA :: byte]
        \<longrightarrow> kanjiFirstByte ([0x93, 0x5F, 0xE4, 0xAA] ! (2 * i))"
  proof (intro allI impI)
    fix i :: nat assume "2 * i < length [0x93, 0x5F, 0xE4, 0xAA :: byte]"
    then have "i = 0 \<or> i = 1" by auto
    then show "kanjiFirstByte ([0x93, 0x5F, 0xE4, 0xAA] ! (2 * i))"
      by (auto simp: kanjiFirstByte_def)
  qed
  have a: "\<not> (\<exists>c \<in> set [72, 69, 76, 76, 79, 32, 49]. c \<notin> set alphanumericChars)"
    "\<exists>c \<in> set [104, 105]. c \<notin> set alphanumericChars"
    "\<not> (\<exists>c \<in> set [52, 50]. c \<notin> set alphanumericChars)"
    unfolding alphanumeric_iff by simp_all
  have n: "None \<noteq> Some (getName (SJIS examplePlatform))"
    "Some ''UTF8'' \<noteq> Some (getName (SJIS examplePlatform))"
    "Some ''SJIS'' = Some (getName (SJIS examplePlatform))"
    by (simp_all add: example_SJIS_name)
  have j: "isOnlyDoubleByteKanji examplePlatform [0x70B9, 0x8317]"
    using chooseMode_classifies [of None examplePlatform "[0x70B9, 0x8317]"] e k
    by (simp add: example_SJIS_name)
  show ?thesis
    using chooseMode_classifies [of None examplePlatform "[72, 69, 76, 76, 79, 32, 49]"]
      chooseMode_classifies [of None examplePlatform "[]"]
      chooseMode_classifies [of "Some ''UTF8''" examplePlatform "[52, 50]"]
      chooseMode_classifies [of None examplePlatform "[104, 105]"]
      chooseMode_classifies [of "Some ''SJIS''" examplePlatform "[0x70B9, 0x8317]"]
      a n e j
    by simp
qed

subsection \<open>Kanji segments\<close>

lemma kanjiCode_eq: "kanjiCode b1 b2 = uint b1 * 256 + uint b2"
proof -
  have "take_bit 8 (uint b2) = uint b2"
    by (rule take_bit_int_eq_self) (use uint_bounded [of b2] in simp_all)
  then have "kanjiCode b1 b2 = concat_bit 8 (uint b2) (uint b1)"
    by (simp add: kanjiCode_def concat_bit_def or.commute)
  also have "\<dots> = take_bit 8 (uint b2) + push_bit 8 (uint b1)"
    by (rule concat_bit_eq)
  finally show ?thesis
    using \<open>take_bit 8 (uint b2) = uint b2\<close> by (simp add: push_bit_eq_mult)
qed

lemma masked_code: "(push_bit 8 (uint b1) AND 0xffffffff) OR uint b2 = kanjiCode b1 b2"
proof -
  have m: "(0xffffffff :: int) = mask 32"
    by (simp add: mask_eq_exp_minus_1)
  have "0 \<le> push_bit 8 (uint b1)" "push_bit 8 (uint b1) < 2 ^ 32"
    using uint_bounded [of b1] by (simp_all add: push_bit_eq_mult)
  then have "take_bit 32 (push_bit 8 (uint b1)) = push_bit 8 (uint b1)"
    by (rule take_bit_int_eq_self)
  then show ?thesis
    unfolding m kanjiCode_def by (simp add: take_bit_eq_mask)
qed

lemma kanjiEncoded_bounds:
  assumes "kanjiInRange code"
  shows "0 \<le> kanjiEncoded code" "kanjiEncoded code < 2 ^ 13"
proof -
  define s where "s = (if code \<le> 0x9FFC then code - 0x8140 else code - 0xC140)"
  have s: "0 \<le> s" "s \<le> 0x2A7F"
    using assms by (auto simp: s_def kanjiInRange_def)
  have a: "x AND 0xFF = x mod 256" for x :: int
  proof -
    have "(0xFF :: int) = mask 8" by (simp add: mask_eq_exp_minus_1)
    then have "x AND 0xFF = take_bit 8 x" by (simp add: take_bit_eq_mask)
    then show ?thesis by (simp add: take_bit_eq_mod)
  qed
  have e: "kanjiEncoded code = (s div 256) * 192 + s mod 256"
    unfolding kanjiEncoded_def Let_def a by (simp add: s_def drop_bit_eq_div)
  show "0 \<le> kanjiEncoded code"
    unfolding e using s by (simp add: pos_imp_zdiv_nonneg_iff)
  have "s div 256 \<le> 42" using s by linarith
  moreover have "s mod 256 \<le> 127" if "s div 256 = 42"
    using s that mult_div_mod_eq [of 256 s] by linarith
  moreover have "s mod 256 < 256" by simp
  ultimately have "(s div 256) * 192 + s mod 256 < 8192"
    by (cases "s div 256 = 42") auto
  then show "kanjiEncoded code < 2 ^ 13"
    unfolding e by simp
qed


lemma appendKanjiPair_eq:
  "appendKanjiPair (uint b1) (uint b2) bits =
     (if kanjiInRange (kanjiCode b1 b2)
      then Inr (bits @ toBits 13 (kanjiEncoded (kanjiCode b1 b2)))
      else Inl (InvalidByteSequence, bits))"
proof (cases "kanjiInRange (kanjiCode b1 b2)")
  case True
  define code where "code = kanjiCode b1 b2"
  define subtracted where "subtracted =
     (if code \<ge> 0x8140 \<and> code \<le> 0x9ffc then code - 0x8140
      else if code \<ge> 0xe040 \<and> code \<le> 0xebbf then code - 0xc140 else -1)"
  have r: "kanjiInRange code" using True by (simp add: code_def)
  then have s: "subtracted = (if code \<le> 0x9FFC then code - 0x8140 else code - 0xC140)"
    by (auto simp: subtracted_def kanjiInRange_def)
  have n: "subtracted \<noteq> -1"
    using r by (auto simp: s kanjiInRange_def)
  have e: "drop_bit 8 subtracted * 0xc0 + (subtracted AND 0xff) = kanjiEncoded code"
    by (simp add: kanjiEncoded_def s Let_def)
  have "appendKanjiPair (uint b1) (uint b2) bits =
      (if subtracted = -1 then Inl (InvalidByteSequence, bits)
       else appendBits (drop_bit 8 subtracted * 0xc0 + (subtracted AND 0xff)) 13 bits)"
    unfolding appendKanjiPair_def masked_code Let_def subtracted_def code_def ..
  also have "\<dots> = appendBits (kanjiEncoded code) 13 bits"
    using n e by simp
  also have "\<dots> = Inr (bits @ toBits 13 (kanjiEncoded code))"
    using kanjiEncoded_bounds [OF r] by (simp add: appendBits_def)
  finally show ?thesis
    using True by (simp add: code_def)
next
  case False
  then show ?thesis
    unfolding appendKanjiPair_def masked_code Let_def by (auto simp: kanjiInRange_def)
qed

lemma appendKanjiLoop_in_range:
  "even (length bytes) \<Longrightarrow>
   \<forall>(b1, b2) \<in> set (pairsOf bytes). kanjiInRange (kanjiCode b1 b2) \<Longrightarrow>
   appendKanjiLoop bytes bits =
     Inr (bits @ concat (map (\<lambda>(b1, b2). toBits 13 (kanjiEncoded (kanjiCode b1 b2)))
                          (pairsOf bytes)))"
  by (induction bytes bits rule: appendKanjiLoop.induct)
    (simp_all add: appendKanjiPair_eq andThen_def)

lemma appendKanjiLoop_out_of_range:
  "\<exists>(b1, b2) \<in> set (pairsOf bytes). \<not> kanjiInRange (kanjiCode b1 b2) \<Longrightarrow>
   thrown (appendKanjiLoop bytes bits) = Some InvalidByteSequence"
  by (induction bytes bits rule: appendKanjiLoop.induct)
    (auto simp: appendKanjiPair_eq andThen_def thrown_def)

lemma in_range_lead:
  assumes "kanjiInRange (kanjiCode b1 b2)"
  shows "isLeadByte b1"
proof -
  define u1 where "u1 = uint b1"
  define u2 where "u2 = uint b2"
  have b: "0 \<le> u2" "u2 < 256"
    using uint_bounded [of b2] by (simp_all add: u2_def)
  consider "0x8140 \<le> u1 * 256 + u2" "u1 * 256 + u2 \<le> 0x9FFC"
    | "0xE040 \<le> u1 * 256 + u2" "u1 * 256 + u2 \<le> 0xEBBF"
    using assms unfolding kanjiCode_eq kanjiInRange_def u1_def u2_def by blast
  then have "(0x81 \<le> u1 \<and> u1 \<le> 0x9F) \<or> (0xE0 \<le> u1 \<and> u1 \<le> 0xEB)"
  proof cases
    case 1
    have "0x81 \<le> u1" using 1 b by linarith
    moreover have "u1 \<le> 0x9F" using 1 b by linarith
    ultimately show ?thesis by simp
  next
    case 2
    have "0xE0 \<le> u1" using 2 b by linarith
    moreover have "u1 \<le> 0xEB" using 2 b by linarith
    ultimately show ?thesis by simp
  qed
  then show "isLeadByte b1"
    unfolding isLeadByte_def u1_def by linarith
qed

lemma appendKanjiLoop_odd:
  "sjisWellFormed bytes \<Longrightarrow> odd (length bytes) \<Longrightarrow>
   thrown (appendKanjiLoop bytes bits) = Some InvalidByteSequence"
proof (induction bytes bits rule: appendKanjiLoop.induct)
  case (1 bits)
  then show ?case by simp
next
  case (2 b1 bits)
  have "\<not> isLeadByte b1" using "2.prems" by (auto split: if_splits)
  then have "\<not> kanjiInRange (kanjiCode b1 0)"
    using in_range_lead by blast
  then show ?case
    using appendKanjiPair_eq [of b1 0 bits] by (simp add: thrown_def)
next
  case (3 b1 b2 rest bits)
  show ?case
  proof (cases "kanjiInRange (kanjiCode b1 b2)")
    case True
    then have "isLeadByte b1" by (rule in_range_lead)
    then have "sjisWellFormed rest" using "3.prems" by simp
    moreover have "odd (length rest)" using "3.prems" by simp
    ultimately show ?thesis
      using True "3.IH" by (simp add: appendKanjiPair_eq andThen_def)
  next
    case False
    then show ?thesis by (simp add: appendKanjiPair_eq andThen_def thrown_def)
  qed
qed

text \<open>
  A lone byte of the range of first bytes is not a string in Shift_JIS. On it the loop
  reads a second byte of 0, finds the code in range and appends 13 bits.
\<close>

lemma appendKanjiLoop_lone_lead_byte:
  "appendKanjiLoop [0x82] [] =
     Inr [False, False, False, False, False, True, True, False, False, False, False, False,
          False]"
proof -
  have "kanjiInRange (kanjiCode 0x82 0)"
    by (simp add: kanjiCode_eq kanjiInRange_def)
  moreover have "kanjiEncoded (kanjiCode 0x82 0) = 192"
    by (simp add: kanjiCode_eq kanjiEncoded_def)
  moreover have "toBits 13 192 =
     [False, False, False, False, False, True, True, False, False, False, False, False, False]"
    by (simp add: toBits_def upt_rec)
  ultimately show ?thesis
    using appendKanjiPair_eq [of "0x82" 0 "[]"] by simp
qed

text \<open>
  C3. Let the platform encode the content in Shift_JIS to \<open>bytes\<close>. If the bytes are
  a string in Shift_JIS of odd length, \<open>appendKanjiBytes\<close> throws
  \<open>Invalid byte sequence\<close>; it throws the same if the combined code of some pair of
  bytes is outside 0x8140 to 0x9FFC and 0xE040 to 0xEBBF; and if the length is even and
  every pair is in range, it returns having appended for each pair, in order, the value
  \<open>(subtracted >> 8) * 0xC0 + (subtracted & 0xFF)\<close> in 13 bits.
\<close>

theorem appendKanjiBytes_pairs:
  assumes "StringEncoding_encode p content (getName (SJIS p)) = Some bytes"
  shows "(sjisWellFormed bytes \<and> odd (length bytes) \<longrightarrow>
            thrown (appendKanjiBytes p content bits) = Some InvalidByteSequence)
       \<and> ((\<exists>(b1, b2) \<in> set (pairsOf bytes). \<not> kanjiInRange (kanjiCode b1 b2)) \<longrightarrow>
            thrown (appendKanjiBytes p content bits) = Some InvalidByteSequence)
       \<and> (even (length bytes)
            \<and> (\<forall>(b1, b2) \<in> set (pairsOf bytes). kanjiInRange (kanjiCode b1 b2)) \<longrightarrow>
            appendKanjiBytes p content bits =
              Inr (bits @ concat (map (\<lambda>(b1, b2). toBits 13 (kanjiEncoded (kanjiCode b1 b2)))
                                   (pairsOf bytes))))"
  using assms appendKanjiLoop_odd [of bytes bits] appendKanjiLoop_out_of_range [of bytes bits]
    appendKanjiLoop_in_range [of bytes bits]
  by (simp add: appendKanjiBytes_def)

theorem appendKanjiBytes_pairs_witness:
  "StringEncoding_encode examplePlatform [0x70B9, 65] (getName (SJIS examplePlatform))
     = Some [0x93, 0x5F, 0x41]
   \<and> sjisWellFormed [0x93, 0x5F, 0x41]
   \<and> thrown (appendKanjiBytes examplePlatform [0x70B9, 65] []) = Some InvalidByteSequence
   \<and> StringEncoding_encode examplePlatform [65, 66] (getName (SJIS examplePlatform))
     = Some [0x41, 0x42]
   \<and> \<not> kanjiInRange (kanjiCode 0x41 0x42)
   \<and> thrown (appendKanjiBytes examplePlatform [65, 66] []) = Some InvalidByteSequence
   \<and> StringEncoding_encode examplePlatform [0x70B9] (getName (SJIS examplePlatform))
     = Some [0x93, 0x5F]
   \<and> kanjiInRange (kanjiCode 0x93 0x5F)
   \<and> appendKanjiBytes examplePlatform [0x70B9] [] =
       Inr [False, True, True, False, True, True, False, False, True, True, True, True, True]"
proof -
  have e1: "StringEncoding_encode examplePlatform [0x70B9, 65] (getName (SJIS examplePlatform))
     = Some [0x93, 0x5F, 0x41]"
    and e2: "StringEncoding_encode examplePlatform [65, 66] (getName (SJIS examplePlatform))
     = Some [0x41, 0x42]"
    and e3: "StringEncoding_encode examplePlatform [0x70B9] (getName (SJIS examplePlatform))
     = Some [0x93, 0x5F]"
    by (simp_all add: example_encode example_SJIS_name exampleChar_def)
  have w: "sjisWellFormed [0x93, 0x5F, 0x41]"
    by (simp add: isLeadByte_def)
  have r2: "\<not> kanjiInRange (kanjiCode 0x41 0x42)"
    by (simp add: kanjiCode_eq kanjiInRange_def)
  have r3: "kanjiInRange (kanjiCode 0x93 0x5F)"
    by (simp add: kanjiCode_eq kanjiInRange_def)
  have v: "kanjiEncoded (kanjiCode 0x93 0x5F) = 3487"
    by (simp add: kanjiCode_eq kanjiEncoded_def)
  have b: "toBits 13 3487 =
      [False, True, True, False, True, True, False, False, True, True, True, True, True]"
    by (simp add: toBits_def upt_rec)
  show ?thesis
    using appendKanjiBytes_pairs [OF e1, of "[]"] appendKanjiBytes_pairs [OF e2, of "[]"]
      appendKanjiBytes_pairs [OF e3, of "[]"] e1 e2 e3 w r2 r3 v b
    by simp
qed

subsection \<open>The ECI header\<close>

lemma encoding_default: "\<not> hasEncodingHint hints \<Longrightarrow> encoding_of p hints = DEFAULT_BYTE_MODE_ENCODING p"
  by (auto simp: hasEncodingHint_def encoding_of_def split: option.splits)

lemma appendECI_eq:
  "getValue eci \<le> 127 \<Longrightarrow>
   appendECI eci bits = Inr (bits @ toBits 4 7 @ toBits 8 (int (getValue eci)))"
  by (simp add: appendECI_def appendBits_def andThen_def ECI_getBits_def)

lemma appendModeInfo_BYTE: "appendModeInfo BYTE bits = Inr (bits @ toBits 4 4)"
  by (simp add: appendModeInfo_def appendBits_def)

text \<open>
  C2, as the encoder has it. When the chosen mode is Byte, the header bits are the ECI
  header, 0111 in 4 bits and the ECI value in 8 bits, followed by the mode indicator, if
  the caller gave a charset hint and the hint names a character set known by that name
  (of a value up to 127); they are the mode indicator alone if there is no hint, or if
  the hint names no known character set.
\<close>

theorem encode_eci_header:
  assumes "chooseMode p content (Some (encoding_of p hints)) = BYTE"
  shows "(\<not> hasEncodingHint hints \<longrightarrow>
            encode_headerBits p content hints = Inr (BYTE, toBits 4 4))
       \<and> (hasEncodingHint hints \<and> getCharacterSetECIByName p (encoding_of p hints) = None \<longrightarrow>
            encode_headerBits p content hints = Inr (BYTE, toBits 4 4))
       \<and> (hasEncodingHint hints \<and> getCharacterSetECIByName p (encoding_of p hints) = Some eci
            \<and> getValue eci \<le> 127 \<longrightarrow>
            encode_headerBits p content hints =
              Inr (BYTE, toBits 4 7 @ toBits 8 (int (getValue eci)) @ toBits 4 4))"
proof -
  have d: "encode_headerBits p content hints =
      (case andThen
              (if hasEncodingHint hints
                  \<or> DEFAULT_BYTE_MODE_ENCODING p \<noteq> encoding_of p hints
               then (case getCharacterSetECIByName p (encoding_of p hints) of
                       Some eci \<Rightarrow> appendECI eci []
                     | None \<Rightarrow> Inr [])
               else Inr [])
              (appendModeInfo BYTE) of
         Inl e \<Rightarrow> Inl e
       | Inr bits \<Rightarrow> Inr (BYTE, bits))"
    unfolding encode_headerBits_def Let_def assms by simp
  have n: "encode_headerBits p content hints = Inr (BYTE, toBits 4 4)"
    if "\<not> hasEncodingHint hints"
    using that encoding_default [OF that, of p]
    by (simp add: d andThen_def appendModeInfo_BYTE)
  have u: "encode_headerBits p content hints = Inr (BYTE, toBits 4 4)"
    if "hasEncodingHint hints" "getCharacterSetECIByName p (encoding_of p hints) = None"
    using that by (simp add: d andThen_def appendModeInfo_BYTE)
  have k: "encode_headerBits p content hints =
      Inr (BYTE, toBits 4 7 @ toBits 8 (int (getValue eci)) @ toBits 4 4)"
    if "hasEncodingHint hints" "getCharacterSetECIByName p (encoding_of p hints) = Some eci"
      "getValue eci \<le> 127"
    using that by (simp add: d andThen_def appendModeInfo_BYTE appendECI_eq)
  show ?thesis
    using n u k by blast
qed

lemma example_UTF8_name: "DEFAULT_BYTE_MODE_ENCODING examplePlatform = ''UTF8''"
  by (simp add: examplePlatform_def DEFAULT_BYTE_MODE_ENCODING_def)

lemma example_lookup:
  "getCharacterSetECIByName examplePlatform ''UTF8'' = Some \<lparr> getName = ''UTF8'', getValue = 26 \<rparr>"
  "getCharacterSetECIByName examplePlatform ''KOI8-R'' = None"
  by (simp_all add: examplePlatform_def)

lemma example_mode_hi: "chooseMode examplePlatform [104, 105] (Some ''UTF8'') = BYTE"
   "chooseMode examplePlatform [104, 105] (Some ''KOI8-R'') = BYTE"
  by (simp_all add: chooseMode_def examplePlatform_def isDigit_def getDigit_def
      getAlphanumericCode_def ALPHANUMERIC_TABLE_def)

text \<open>
  C2, as stated, fails: with the hint naming the default charset the ECI header is
  written although the resolved charset is the default one, and with a hint naming a
  charset that is not known by that name no ECI header is written although the resolved
  charset differs from the default.
\<close>

theorem encode_eci_counterexample:
  "encoding_of examplePlatform (Some \<lparr> CHARACTER_SET = Some ''UTF8'', QR_VERSION = None \<rparr>)
     = DEFAULT_BYTE_MODE_ENCODING examplePlatform
   \<and> encode_headerBits examplePlatform [104, 105]
       (Some \<lparr> CHARACTER_SET = Some ''UTF8'', QR_VERSION = None \<rparr>)
     = Inr (BYTE, [False, True, True, True] @
                  [False, False, False, True, True, False, True, False] @
                  [False, True, False, False])
   \<and> encoding_of examplePlatform (Some \<lparr> CHARACTER_SET = Some ''KOI8-R'', QR_VERSION = None \<rparr>)
     \<noteq> DEFAULT_BYTE_MODE_ENCODING examplePlatform
   \<and> encode_headerBits examplePlatform [104, 105]
       (Some \<lparr> CHARACTER_SET = Some ''KOI8-R'', QR_VERSION = None \<rparr>)
     = Inr (BYTE, [False, True, False, False])"
  by (simp add: encode_headerBits_def Let_def encoding_of_def hasEncodingHint_def
      example_UTF8_name example_lookup example_mode_hi appendECI_def appendModeInfo_def
      appendBits_def andThen_def ECI_getBits_def toBits_def upt_rec)

theorem encode_eci_header_witness:
  "chooseMode examplePlatform [104, 105] (Some (encoding_of examplePlatform None)) = BYTE
   \<and> encode_headerBits examplePlatform [104, 105] None = Inr (BYTE, [False, True, False, False])
   \<and> hasEncodingHint (Some \<lparr> CHARACTER_SET = Some ''UTF8'', QR_VERSION = None \<rparr>)
   \<and> encode_headerBits examplePlatform [104, 105]
       (Some \<lparr> CHARACTER_SET = Some ''UTF8'', QR_VERSION = None \<rparr>)
     = Inr (BYTE, [False, True, True, True] @
                  [False, False, False, True, True, False, True, False] @
                  [False, True, False, False])"
proof -
  let ?h = "Some \<lparr> CHARACTER_SET = Some ''UTF8'', QR_VERSION = None \<rparr>"
  have e: "encoding_of examplePlatform None = ''UTF8''" "encoding_of examplePlatform ?h = ''UTF8''"
    by (simp_all add: encoding_of_def example_UTF8_name)
  have h: "\<not> hasEncodingHint None" "hasEncodingHint ?h"
    by (simp_all add: hasEncodingHint_def)
  have m: "chooseMode examplePlatform [104, 105] (Some (encoding_of examplePlatform None)) = BYTE"
    "chooseMode examplePlatform [104, 105] (Some (encoding_of examplePlatform ?h)) = BYTE"
    by (simp_all add: e example_mode_hi)
  have b: "toBits 4 4 = [False, True, False, False]" "toBits 4 7 = [False, True, True, True]"
    "toBits 8 26 = [False, False, False, True, True, False, True, False]"
    by (simp_all add: toBits_def upt_rec)
  show ?thesis
    using encode_eci_header [OF m(1)]
      encode_eci_header [OF m(2), of "\<lparr> getName = ''UTF8'', getValue = 26 \<rparr>"]
      e h m b example_lookup
    by simp
qed

subsection \<open>Interleaving\<close>

lemma length_toBytes [simp]: "length (toBytes bits offset n) = n"
  by (simp add: toBytes_def)

lemma generateECBytes_length:
  "generateECBytes rs dataBytes numEc = Inr ecBytes \<Longrightarrow> length ecBytes = nat numEc"
  by (auto simp: generateECBytes_def Let_def split: if_splits sum.splits)

lemma collectECBytes_length:
  "collectECBytes rs numEc blocks = Inr ecs \<Longrightarrow> length ecs = length blocks"
  by (induction blocks arbitrary: ecs) (auto split: sum.splits)

lemma bytesToBits_Nil [simp]: "bytesToBits [] = []"
  by (simp add: bytesToBits_def)

lemma bytesToBits_append [simp]: "bytesToBits (xs @ ys) = bytesToBits xs @ bytesToBits ys"
  by (simp add: bytesToBits_def)

lemma length_bytesToBits [simp]: "length (bytesToBits xs) = 8 * length xs"
  by (induction xs) (simp_all add: bytesToBits_def)

lemma getSizeInBytes_bytesToBits [simp]: "getSizeInBytes (bytesToBits xs) = length xs"
  by (simp add: getSizeInBytes_def)

lemma getSizeInBytes_two [simp]:
  "getSizeInBytes (bytesToBits xs @ bytesToBits ys) = length xs + length ys"
  using getSizeInBytes_bytesToBits [of "xs @ ys"] by (simp del: getSizeInBytes_bytesToBits)

lemma appendBits_byte: "appendBits (uint (b :: byte)) 8 result = Inr (result @ toBits 8 (uint b))"
  using uint_bounded [of b] by (simp add: appendBits_def)

lemma placeBytesAt_eq:
  "placeBytesAt i blocks result = Inr (result @ bytesToBits (bytesAt i blocks))"
  by (induction blocks arbitrary: result)
    (simp_all add: bytesAt_def appendBits_byte andThen_def bytesToBits_def)

lemma placeBlocks_eq:
  "placeBlocks is blocks result =
     Inr (result @ bytesToBits (concat (map (\<lambda>i. bytesAt i blocks) is)))"
  by (induction "is" arbitrary: result) (simp_all add: placeBytesAt_eq andThen_def)

lemma foldl_max: "foldl max a ys = max (a :: nat) (foldr max ys 0)"
  by (induction ys arbitrary: a) (simp_all add: max.assoc max.commute max.left_commute)

lemma length_transpose_foldl:
  "length (transpose blocks) = foldl max 0 (map length blocks)"
  by (simp add: length_transpose foldl_max foldr_map comp_def)

lemma columns_transpose:
  "map (\<lambda>i. bytesAt i blocks) [0..<length (transpose blocks)] = transpose blocks"
  by (rule nth_equalityI) (simp_all add: nth_transpose bytesAt_def)

lemma placeBlocks_transpose:
  "placeBlocks [0..<foldl max 0 (map length blocks)] blocks result =
     Inr (result @ bytesToBits (concat (transpose blocks)))"
  by (simp add: placeBlocks_eq columns_transpose flip: length_transpose_foldl)


lemma divideBlocks_eq:
  assumes "\<forall>i \<in> set is. i < n" and "0 \<le> off" and "t < 2 ^ 31" and "d < 2 ^ 31"
  shows "divideBlocks rs bits t d n is (off, maxD, maxE, blocks) =
     (case collectECBytes rs (ecBytesInBlock t d n)
             (slicesFrom bits (nat off) (sizesOf t d n is)) of
        Inl e \<Rightarrow> Inl e
      | Inr ecs \<Rightarrow>
          Inr (off + int (sum_list (sizesOf t d n is)),
               foldl max maxD (sizesOf t d n is),
               foldl max maxE (map length ecs),
               blocks @ map (\<lambda>(dataBytes, ecBytes).
                               \<lparr> getDataBytes = dataBytes, getErrorCorrectionBytes = ecBytes \<rparr>)
                          (zip (slicesFrom bits (nat off) (sizesOf t d n is)) ecs)))"
  using assms
proof (induction "is" arbitrary: off maxD maxE blocks)
  case Nil
  show ?case by (simp add: sizesOf_def)
next
  case (Cons i rest)
  have i: "i < n" and rest: "\<forall>i \<in> set rest. i < n" using Cons.prems by simp_all
  define size where "size = nat (dataBytesInBlock t d n i)"
  have g: "getNumDataBytesAndNumECBytesForBlockID t d n i =
      Inr (dataBytesInBlock t d n i, ecBytesInBlock t d n)"
    using i by (simp add: getNumDataBytesAndNumECBytesForBlockID_eq [OF Cons.prems(3,4)])
  have s: "sizesOf t d n (i # rest) = size # sizesOf t d n rest"
    by (simp add: sizesOf_def size_def)
  have ds: "dataBytesInBlock t d n i = int size"
    using dataBytesInBlock_nonneg [of t d n i] by (simp add: size_def)
  have n: "nat (off + int size) = nat off + size"
    using Cons.prems(2) by (simp add: nat_add_distrib)
  have p: "0 \<le> off + int size"
    using Cons.prems(2) by simp
  note ih = Cons.IH [OF rest p Cons.prems(3,4), unfolded n]
  have step: "divideBlocks rs bits t d n (i # rest) (off, maxD, maxE, blocks) =
      (case generateECBytes rs (toBytes bits (8 * nat off) size) (ecBytesInBlock t d n) of
         Inl e \<Rightarrow> Inl e
       | Inr ecBytes \<Rightarrow>
           divideBlocks rs bits t d n rest
             (off + int size, max maxD size, max maxE (length ecBytes),
              blocks @ [\<lparr> getDataBytes = toBytes bits (8 * nat off) size,
                          getErrorCorrectionBytes = ecBytes \<rparr>]))"
    by (simp add: g ds Let_def)
  show ?case
  proof (cases "generateECBytes rs (toBytes bits (8 * nat off) size) (ecBytesInBlock t d n)")
    case (Inl e)
    then show ?thesis
      by (subst step) (simp add: s)
  next
    case (Inr ecBytes)
    show ?thesis
    proof (cases "collectECBytes rs (ecBytesInBlock t d n)
             (slicesFrom bits (nat off + size) (sizesOf t d n rest))")
      case (Inl e)
      then show ?thesis
        using Inr by (subst step) (simp add: s ih)
    next
      case ecs: (Inr ecs)
      then show ?thesis
        using Inr by (subst step) (simp add: s ih)
    qed
  qed
qed


lemma map_length_slicesFrom [simp]: "map length (slicesFrom bits off sizes) = sizes"
  by (induction sizes arbitrary: off) simp_all

lemma length_slicesFrom [simp]: "length (slicesFrom bits off sizes) = length sizes"
  by (induction sizes arbitrary: off) simp_all

lemma toBytes_add:
  "toBytes bits (8 * off) (a + b) = toBytes bits (8 * off) a @ toBytes bits (8 * (off + a)) b"
proof -
  define f where "f i = byteOfBits (map (getBit bits) [8 * off + 8 * i..<8 * off + 8 * i + 8])"
    for i
  have g: "byteOfBits (map (getBit bits) [8 * (off + a) + 8 * i..<8 * (off + a) + 8 * i + 8])
      = f (a + i)" for i
    unfolding f_def by (simp only: distrib_left add.assoc)
  have "map f [0..<a + b] = map f [0..<a] @ map f [a..<a + b]"
    by (simp only: upt_add_eq_append [OF le0] map_append)
  also have "map f [a..<a + b] = map (\<lambda>i. f (a + i)) [0..<b]"
    by (rule nth_equalityI) simp_all
  finally show ?thesis
    unfolding toBytes_def g f_def [symmetric] .
qed

lemma concat_slicesFrom:
  "concat (slicesFrom bits off sizes) = toBytes bits (8 * off) (sum_list sizes)"
  by (induction sizes arbitrary: off) (simp_all add: toBytes_add, simp add: toBytes_def)

lemma blocks_data:
  "length ecs = length ds \<Longrightarrow>
   map getDataBytes (map (\<lambda>(dataBytes, ecBytes).
       \<lparr> getDataBytes = dataBytes, getErrorCorrectionBytes = ecBytes \<rparr>) (zip ds ecs)) = ds"
  "length ecs = length ds \<Longrightarrow>
   map getErrorCorrectionBytes (map (\<lambda>(dataBytes, ecBytes).
       \<lparr> getDataBytes = dataBytes, getErrorCorrectionBytes = ecBytes \<rparr>) (zip ds ecs)) = ecs"
  by (induction ds ecs rule: list_induct2') simp_all

lemma interleaveWithECBytes_eq:
  assumes bt: "t < 2 ^ 31" and bd: "d < 2 ^ 31"
  shows "interleaveWithECBytes rs bits t d n =
     (if getSizeInBytes bits \<noteq> d then Inl BitsAndDataBytesMismatch
      else
        case collectECBytes rs (ecBytesInBlock t d n) (dataBlocks bits t d n) of
          Inl e \<Rightarrow> Inl e
        | Inr ecs \<Rightarrow>
            if d \<noteq> sum_list (blockSizes t d n) then Inl DataBytesOffsetMismatch
            else if t \<noteq> length (concat (transpose (dataBlocks bits t d n))
                                 @ concat (transpose ecs))
              then Inl InterleavingError
            else Inr (bytesToBits (concat (transpose (dataBlocks bits t d n))
                                   @ concat (transpose ecs))))"
proof (cases "getSizeInBytes bits \<noteq> d")
  case True
  then show ?thesis by (simp add: interleaveWithECBytes_def)
next
  case False
  have sz: "sizesOf t d n [0..<n] = blockSizes t d n"
    by (simp add: sizesOf_def blockSizes_def)
  have div: "divideBlocks rs bits t d n [0..<n] (0, 0, 0, []) =
     (case collectECBytes rs (ecBytesInBlock t d n) (dataBlocks bits t d n) of
        Inl e \<Rightarrow> Inl e
      | Inr ecs \<Rightarrow>
          Inr (int (sum_list (blockSizes t d n)),
               foldl max 0 (blockSizes t d n),
               foldl max 0 (map length ecs),
               map (\<lambda>(dataBytes, ecBytes).
                      \<lparr> getDataBytes = dataBytes, getErrorCorrectionBytes = ecBytes \<rparr>)
                   (zip (dataBlocks bits t d n) ecs)))"
    using divideBlocks_eq [where ?is = "[0..<n]" and n = n and off = 0 and rs = rs
        and bits = bits and maxD = 0 and maxE = 0 and blocks = "[]", OF _ _ bt bd, unfolded sz]
    by (simp add: dataBlocks_def cong: sum.case_cong)
  show ?thesis
  proof (cases "collectECBytes rs (ecBytesInBlock t d n) (dataBlocks bits t d n)")
    case (Inl e)
    then show ?thesis
      using False by (simp add: interleaveWithECBytes_def div)
  next
    case (Inr ecs)
    have len: "length ecs = length (dataBlocks bits t d n)"
      using Inr by (rule collectECBytes_length)
    have m: "foldl max 0 (blockSizes t d n) = foldl max 0 (map length (dataBlocks bits t d n))"
      by (simp add: dataBlocks_def)
    define blocks where "blocks =
        map (\<lambda>(dataBytes, ecBytes).
               \<lparr> getDataBytes = dataBytes, getErrorCorrectionBytes = ecBytes \<rparr>)
            (zip (dataBlocks bits t d n) ecs)"
    have md: "map getDataBytes blocks = dataBlocks bits t d n"
      and me: "map getErrorCorrectionBytes blocks = ecs"
      unfolding blocks_def by (rule blocks_data [OF len])+
    have dv: "divideBlocks rs bits t d n [0..<n] (0, 0, 0, []) =
        Inr (int (sum_list (blockSizes t d n)),
             foldl max 0 (map length (dataBlocks bits t d n)),
             foldl max 0 (map length ecs), blocks)"
      by (simp add: div Inr m blocks_def)
    show ?thesis
      using False
      by (simp add: interleaveWithECBytes_def dv Inr md me placeBlocks_transpose andThen_def)
  qed
qed

text \<open>
  Beyond \<open>2 ^ 31\<close> the cells wrap. With one block, 3 data bytes and 4294967301 bytes in
  all, the error correction count 4294967298 is stored as 2, five bytes are interleaved
  and the call throws for their number.
\<close>

lemma interleaveWithECBytes_wrapped_count:
  "getNumDataBytesAndNumECBytesForBlockID 4294967301 3 1 0 = Inr (3, 2)
   \<and> interleaveWithECBytes exampleRS (bytesToBits [0x10, 0x20, 0x30]) 4294967301 3 1
       = Inl InterleavingError"
proof -
  let ?bits = "bytesToBits [0x10, 0x20, 0x30]"
  have g: "getNumDataBytesAndNumECBytesForBlockID 4294967301 3 1 0 = Inr (3, 2)"
    by (simp add: getNumDataBytesAndNumECBytesForBlockID_cells dataBytesInBlock_def
        ecBytesInBlock_def toInt32_def)
  have tb: "toBytes ?bits 0 3 = [0x10, 0x20, 0x30]"
    by code_simp
  have ec: "generateECBytes exampleRS [0x10, 0x20, 0x30] 2 = Inr [0x60, 0x61]"
    by code_simp
  have g': "getNumDataBytesAndNumECBytesForBlockID 4294967301 3 (Suc 0) 0 = Inr (3, 2)"
    using g by simp
  have dv: "divideBlocks exampleRS ?bits 4294967301 3 1 [0] (0, 0, 0, []) =
      Inr (3, 3, 2, [\<lparr> getDataBytes = [0x10, 0x20, 0x30],
                        getErrorCorrectionBytes = [0x60, 0x61] \<rparr>])"
    by (simp add: g' tb ec Let_def)
  have pl: "andThen
      (placeBlocks [0..<3]
         (map getDataBytes [\<lparr> getDataBytes = [0x10, 0x20, 0x30],
                               getErrorCorrectionBytes = [0x60, 0x61] \<rparr>]) [])
      (placeBlocks [0..<2]
         (map getErrorCorrectionBytes [\<lparr> getDataBytes = [0x10, 0x20, 0x30],
                                          getErrorCorrectionBytes = [0x60, 0x61] \<rparr>]))
      = Inr (bytesToBits [0x10, 0x20, 0x30, 0x60, 0x61])"
    by code_simp
  have u: "[0..<1] = [0]" by simp
  have "interleaveWithECBytes exampleRS ?bits 4294967301 3 1 = Inl InterleavingError"
    unfolding interleaveWithECBytes_def u dv sum.case prod.case pl
    by simp
  with g show ?thesis by simp
qed

text \<open>
  C6, for counts below \<open>2 ^ 31\<close>, which the cells of the block sizes hold and below
  which the source's arithmetic is exact. \<open>interleaveWithECBytes\<close> throws when the bits do not hold \<open>numDataBytes\<close>
  bytes. Otherwise the data bytes are cut into consecutive blocks of the sizes of the
  blocks, each block gets its error correction bytes, and the call returns the bits of:
  for each index in turn, the data byte at that index of every block that has one, in
  the order of the blocks (the rows of the transposed list of blocks), then the same for
  the error correction bytes. It returns only if the block sizes add up to
  \<open>numDataBytes\<close> and the interleaved bytes are \<open>numTotalBytes\<close> in number, so a
  result holds exactly \<open>numTotalBytes\<close> bytes; the first failure of the Reed-Solomon
  encoder, if any, is the failure of the call.
\<close>

theorem interleaveWithECBytes_order:
  assumes "numTotalBytes < 2 ^ 31" and "numDataBytes < 2 ^ 31" and "numRSBlocks < 2 ^ 31"
  shows "interleaveWithECBytes rs bits numTotalBytes numDataBytes numRSBlocks =
     (if getSizeInBytes bits \<noteq> numDataBytes then Inl BitsAndDataBytesMismatch
      else
        case collectECBytes rs (ecBytesInBlock numTotalBytes numDataBytes numRSBlocks)
               (dataBlocks bits numTotalBytes numDataBytes numRSBlocks) of
          Inl e \<Rightarrow> Inl e
        | Inr ecs \<Rightarrow>
            if numDataBytes \<noteq> sum_list (blockSizes numTotalBytes numDataBytes numRSBlocks)
              then Inl DataBytesOffsetMismatch
            else if numTotalBytes \<noteq>
                length (concat (transpose (dataBlocks bits numTotalBytes numDataBytes numRSBlocks))
                        @ concat (transpose ecs))
              then Inl InterleavingError
            else Inr (bytesToBits
                       (concat (transpose (dataBlocks bits numTotalBytes numDataBytes numRSBlocks))
                        @ concat (transpose ecs))))
   \<and> concat (dataBlocks bits numTotalBytes numDataBytes numRSBlocks) =
       toBytes bits 0 (sum_list (blockSizes numTotalBytes numDataBytes numRSBlocks))
   \<and> (\<forall>result. interleaveWithECBytes rs bits numTotalBytes numDataBytes numRSBlocks = Inr result
         \<longrightarrow> getSizeInBytes result = numTotalBytes \<and> length result = 8 * numTotalBytes)"
proof -
  note interleaveWithECBytes_eq = interleaveWithECBytes_eq [OF assms(1) assms(2)]
  have c: "concat (dataBlocks bits numTotalBytes numDataBytes numRSBlocks) =
       toBytes bits 0 (sum_list (blockSizes numTotalBytes numDataBytes numRSBlocks))"
    using concat_slicesFrom [of bits 0] by (simp add: dataBlocks_def)
  have r: "getSizeInBytes result = numTotalBytes \<and> length result = 8 * numTotalBytes"
    if ok: "interleaveWithECBytes rs bits numTotalBytes numDataBytes numRSBlocks = Inr result"
    for result
  proof (cases "collectECBytes rs (ecBytesInBlock numTotalBytes numDataBytes numRSBlocks)
               (dataBlocks bits numTotalBytes numDataBytes numRSBlocks)")
    case (Inl e)
    then show ?thesis
      using ok by (simp add: interleaveWithECBytes_eq split: if_splits)
  next
    case (Inr ecs)
    define out where "out =
        concat (transpose (dataBlocks bits numTotalBytes numDataBytes numRSBlocks))
        @ concat (transpose ecs)"
    have "result = bytesToBits out \<and> numTotalBytes = length out"
      using ok Inr unfolding interleaveWithECBytes_eq out_def
      by (simp split: if_splits)
    then show ?thesis
      by simp
  qed
  have e: "interleaveWithECBytes rs bits numTotalBytes numDataBytes numRSBlocks =
     (if getSizeInBytes bits \<noteq> numDataBytes then Inl BitsAndDataBytesMismatch
      else
        case collectECBytes rs (ecBytesInBlock numTotalBytes numDataBytes numRSBlocks)
               (dataBlocks bits numTotalBytes numDataBytes numRSBlocks) of
          Inl e \<Rightarrow> Inl e
        | Inr ecs \<Rightarrow>
            if numDataBytes \<noteq> sum_list (blockSizes numTotalBytes numDataBytes numRSBlocks)
              then Inl DataBytesOffsetMismatch
            else if numTotalBytes \<noteq>
                length (concat (transpose (dataBlocks bits numTotalBytes numDataBytes numRSBlocks))
                        @ concat (transpose ecs))
              then Inl InterleavingError
            else Inr (bytesToBits
                       (concat (transpose (dataBlocks bits numTotalBytes numDataBytes numRSBlocks))
                        @ concat (transpose ecs))))"
    by (rule interleaveWithECBytes_eq)
  from e c r show ?thesis
    by blast
qed

theorem interleaveWithECBytes_order_witness:
  "(7::nat) < 2 ^ 31 \<and> (3::nat) < 2 ^ 31 \<and> (2::nat) < 2 ^ 31
   \<and> getSizeInBytes (bytesToBits [0x10, 0x20, 0x30]) = 3
   \<and> dataBlocks (bytesToBits [0x10, 0x20, 0x30]) 7 3 2 = [[0x10], [0x20, 0x30]]
   \<and> collectECBytes exampleRS (ecBytesInBlock 7 3 2) [[0x10], [0x20, 0x30]]
       = Inr [[0x10, 0x11], [0x50, 0x51]]
   \<and> interleaveWithECBytes exampleRS (bytesToBits [0x10, 0x20, 0x30]) 7 3 2
       = Inr (bytesToBits [0x10, 0x20, 0x30, 0x10, 0x50, 0x11, 0x51])
   \<and> length (bytesToBits [0x10, 0x20, 0x30, 0x10, 0x50, 0x11, 0x51]) = 8 * 7
   \<and> interleaveWithECBytes exampleRS (bytesToBits [0x10]) 7 3 2 = Inl BitsAndDataBytesMismatch
   \<and> interleaveWithECBytes exampleRS [] 5 0 0 = Inl InterleavingError"
proof -
  let ?bits = "bytesToBits [0x10, 0x20, 0x30]"
  have h: "(7::nat) < 2 ^ 31" "(3::nat) < 2 ^ 31" "(2::nat) < 2 ^ 31"
    and h0: "(5::nat) < 2 ^ 31" "(0::nat) < 2 ^ 31"
    by simp_all
  have g: "getSizeInBytes ?bits = 3"
    by simp
  have d: "dataBlocks ?bits 7 3 2 = [[0x10], [0x20, 0x30]]"
    by code_simp
  have e: "collectECBytes exampleRS (ecBytesInBlock 7 3 2) [[0x10], [0x20, 0x30]]
       = Inr [[0x10, 0x11], [0x50, 0x51]]"
    by code_simp
  have s: "sum_list (blockSizes 7 3 2) = 3"
    by code_simp
  have t: "concat (transpose [[0x10], [0x20, 0x30 :: byte]])
        @ concat (transpose [[0x10, 0x11], [0x50, 0x51]])
      = [0x10, 0x20, 0x30, 0x10, 0x50, 0x11, 0x51]"
    by code_simp
  have l: "length [0x10, 0x20, 0x30, 0x10, 0x50, 0x11, 0x51 :: byte] = 7"
    by simp
  have i1: "interleaveWithECBytes exampleRS ?bits 7 3 2
       = Inr (bytesToBits [0x10, 0x20, 0x30, 0x10, 0x50, 0x11, 0x51])"
    using interleaveWithECBytes_order [OF h, of exampleRS ?bits, THEN conjunct1]
    unfolding g d e s t l by simp
  have i2: "interleaveWithECBytes exampleRS (bytesToBits [0x10]) 7 3 2
       = Inl BitsAndDataBytesMismatch"
    using interleaveWithECBytes_order [OF h, of exampleRS "bytesToBits [0x10]", THEN conjunct1]
    by simp
  have z: "getSizeInBytes [] = 0" "dataBlocks [] 5 0 0 = []"
    "collectECBytes exampleRS (ecBytesInBlock 5 0 0) [] = Inr []"
    "sum_list (blockSizes 5 0 0) = 0"
    by (simp_all add: dataBlocks_def blockSizes_def getSizeInBytes_def)
  have i3: "interleaveWithECBytes exampleRS [] 5 0 0 = Inl InterleavingError"
    using interleaveWithECBytes_order [OF h0(1) h0(2) h0(2), of exampleRS "[]", THEN conjunct1]
    unfolding z by simp
  have n: "length (bytesToBits [0x10, 0x20, 0x30, 0x10, 0x50, 0x11, 0x51]) = 8 * 7"
    by simp
  from h g d e i1 n i2 i3 show ?thesis
    by (intro conjI)
qed

end
